theory Spec2Isabelle
  imports Main "HOL-Library.AList"
begin

section \<open>Bytes and UTF-8 (package unicode/utf8)\<close>

abbreviation byte :: "char \<Rightarrow> nat" where
  "byte \<equiv> of_char"

definition RuneError :: nat where
  "RuneError = 0xFFFD"

definition cont :: "char \<Rightarrow> bool" where
  "cont c \<longleftrightarrow> 0x80 \<le> byte c \<and> byte c \<le> 0xBF"

definition accept :: "char \<Rightarrow> char \<Rightarrow> bool" where
  "accept p0 p1 \<longleftrightarrow>
     (if byte p0 = 0xE0 then 0xA0 else if byte p0 = 0xF0 then 0x90 else 0x80) \<le> byte p1 \<and>
     byte p1 \<le> (if byte p0 = 0xED then 0x9F else if byte p0 = 0xF4 then 0x8F else 0xBF)"

fun DecodeRune :: "string \<Rightarrow> nat \<times> nat" where
  "DecodeRune [] = (RuneError, 0)"
| "DecodeRune (p0 # p) =
     (if byte p0 < 0x80 then (byte p0, 1)
      else if byte p0 < 0xC2 \<or> 0xF4 < byte p0 then (RuneError, 1)
      else if byte p0 < 0xE0 then
        (case p of
           p1 # _ \<Rightarrow>
             if accept p0 p1 then (byte p0 mod 32 * 64 + byte p1 mod 64, 2)
             else (RuneError, 1)
         | _ \<Rightarrow> (RuneError, 1))
      else if byte p0 < 0xF0 then
        (case p of
           p1 # p2 # _ \<Rightarrow>
             if accept p0 p1 \<and> cont p2
             then (byte p0 mod 16 * 4096 + byte p1 mod 64 * 64 + byte p2 mod 64, 3)
             else (RuneError, 1)
         | _ \<Rightarrow> (RuneError, 1))
      else
        (case p of
           p1 # p2 # p3 # _ \<Rightarrow>
             if accept p0 p1 \<and> cont p2 \<and> cont p3
             then (byte p0 mod 8 * 262144 + byte p1 mod 64 * 4096
                     + byte p2 mod 64 * 64 + byte p3 mod 64, 4)
             else (RuneError, 1)
         | _ \<Rightarrow> (RuneError, 1)))"

definition EncodeRune :: "nat \<Rightarrow> string" where
  "EncodeRune r =
     (if r \<le> 0x7F then [char_of r]
      else if r \<le> 0x7FF then [char_of (0xC0 + r div 64), char_of (0x80 + r mod 64)]
      else if 0x10FFFF < r \<or> (0xD800 \<le> r \<and> r \<le> 0xDFFF) then [CHR 0xEF, CHR 0xBF, CHR 0xBD]
      else if r \<le> 0xFFFF then
        [char_of (0xE0 + r div 4096), char_of (0x80 + r div 64 mod 64), char_of (0x80 + r mod 64)]
      else
        [char_of (0xF0 + r div 262144), char_of (0x80 + r div 4096 mod 64),
         char_of (0x80 + r div 64 mod 64), char_of (0x80 + r mod 64)])"

declare DecodeRune.simps(2) [simp del]

fun valid_utf8 :: "string \<Rightarrow> bool" where
  "valid_utf8 [] = True"
| "valid_utf8 (c # cs) =
     (DecodeRune (c # cs) \<noteq> (RuneError, 1) \<and>
      valid_utf8 (drop (snd (DecodeRune (c # cs)) - 1) cs))"

section \<open>JSON string literals (package encoding/json)\<close>

definition dq :: char where
  "dq = CHR 0x22"

definition bs :: char where
  "bs = CHR 0x5C"

definition hex :: "nat \<Rightarrow> char" where
  "hex n = ''0123456789abcdef'' ! n"

definition htmlSafe :: "char \<Rightarrow> bool" where
  "htmlSafe c \<longleftrightarrow>
     0x20 \<le> byte c \<and> byte c < 0x80 \<and>
     c \<noteq> dq \<and> c \<noteq> CHR ''&'' \<and> c \<noteq> CHR ''<'' \<and> c \<noteq> CHR ''>'' \<and> c \<noteq> bs"

definition escape :: "char \<Rightarrow> string" where
  "escape c =
     (if c = bs \<or> c = dq then [bs, c]
      else if c = CHR 0x08 then [bs, CHR ''b'']
      else if c = CHR 0x0C then [bs, CHR ''f'']
      else if c = CHR 0x0A then [bs, CHR ''n'']
      else if c = CHR 0x0D then [bs, CHR ''r'']
      else if c = CHR 0x09 then [bs, CHR ''t'']
      else [bs, CHR ''u'', CHR ''0'', CHR ''0'', hex (byte c div 16), hex (byte c mod 16)])"

fun appendString :: "string \<Rightarrow> string" where
  "appendString [] = []"
| "appendString (c # cs) =
     (if byte c < 0x80 then
        (if htmlSafe c then [c] else escape c) @ appendString cs
      else if DecodeRune (c # cs) = (RuneError, 1) then
        [bs, CHR ''u'', CHR ''f'', CHR ''f'', CHR ''f'', CHR ''d''] @ appendString cs
      else if fst (DecodeRune (c # cs)) = 0x2028 \<or> fst (DecodeRune (c # cs)) = 0x2029 then
        [bs, CHR ''u'', CHR ''2'', CHR ''0'', CHR ''2'', hex (fst (DecodeRune (c # cs)) mod 16)]
          @ appendString (drop (snd (DecodeRune (c # cs)) - 1) cs)
      else
        c # take (snd (DecodeRune (c # cs)) - 1) cs
          @ appendString (drop (snd (DecodeRune (c # cs)) - 1) cs))"

definition quote :: "string \<Rightarrow> string" where
  "quote s = dq # appendString s @ [dq]"

definition hexval :: "char \<Rightarrow> nat option" where
  "hexval c =
     (if byte CHR ''0'' \<le> byte c \<and> byte c \<le> byte CHR ''9'' then Some (byte c - byte CHR ''0'')
      else if byte CHR ''a'' \<le> byte c \<and> byte c \<le> byte CHR ''f'' then Some (byte c - byte CHR ''a'' + 10)
      else if byte CHR ''A'' \<le> byte c \<and> byte c \<le> byte CHR ''F'' then Some (byte c - byte CHR ''A'' + 10)
      else None)"

fun getu4 :: "string \<Rightarrow> nat option" where
  "getu4 (b # u # h1 # h2 # h3 # h4 # _) =
     (if b = bs \<and> u = CHR ''u'' then
        (case (hexval h1, hexval h2, hexval h3, hexval h4) of
           (Some a, Some b, Some c, Some d) \<Rightarrow> Some (((a * 16 + b) * 16 + c) * 16 + d)
         | _ \<Rightarrow> None)
      else None)"
| "getu4 _ = None"

definition IsSurrogate :: "nat \<Rightarrow> bool" where
  "IsSurrogate r \<longleftrightarrow> 0xD800 \<le> r \<and> r < 0xE000"

definition utf16_DecodeRune :: "nat \<Rightarrow> nat option \<Rightarrow> nat" where
  "utf16_DecodeRune r1 r2 =
     (case r2 of
        Some r2' \<Rightarrow>
          if 0xD800 \<le> r1 \<and> r1 < 0xDC00 \<and> 0xDC00 \<le> r2' \<and> r2' < 0xE000
          then (r1 - 0xD800) * 1024 + (r2' - 0xDC00) + 0x10000
          else RuneError
      | None \<Rightarrow> RuneError)"

definition cons_opt :: "string \<Rightarrow> string option \<Rightarrow> string option" where
  "cons_opt pre r = map_option (\<lambda>t. pre @ t) r"

function unquoteBytes :: "string \<Rightarrow> string option" where
  "unquoteBytes [] = Some []"
| "unquoteBytes (c # cs) =
     (if c = bs then
        (case cs of
           [] \<Rightarrow> None
         | e # es \<Rightarrow>
             if e = dq \<or> e = bs \<or> e = CHR ''/'' \<or> e = CHR 0x27 then cons_opt [e] (unquoteBytes es)
             else if e = CHR ''b'' then cons_opt [CHR 0x08] (unquoteBytes es)
             else if e = CHR ''f'' then cons_opt [CHR 0x0C] (unquoteBytes es)
             else if e = CHR ''n'' then cons_opt [CHR 0x0A] (unquoteBytes es)
             else if e = CHR ''r'' then cons_opt [CHR 0x0D] (unquoteBytes es)
             else if e = CHR ''t'' then cons_opt [CHR 0x09] (unquoteBytes es)
             else if e = CHR ''u'' then
               (case getu4 (c # cs) of
                  None \<Rightarrow> None
                | Some rr \<Rightarrow>
                    if IsSurrogate rr then
                      (if utf16_DecodeRune rr (getu4 (drop 4 es)) \<noteq> RuneError
                       then cons_opt (EncodeRune (utf16_DecodeRune rr (getu4 (drop 4 es))))
                              (unquoteBytes (drop 10 es))
                       else cons_opt (EncodeRune RuneError) (unquoteBytes (drop 4 es)))
                    else cons_opt (EncodeRune rr) (unquoteBytes (drop 4 es)))
             else None)
      else if c = dq \<or> byte c < 0x20 then None
      else if byte c < 0x80 then cons_opt [c] (unquoteBytes cs)
      else cons_opt (EncodeRune (fst (DecodeRune (c # cs))))
             (unquoteBytes (drop (snd (DecodeRune (c # cs)) - 1) cs)))"
  by pat_completeness auto
termination
  by (relation "measure length") auto

section \<open>Integers (package strconv)\<close>

definition is_digit :: "char \<Rightarrow> bool" where
  "is_digit c \<longleftrightarrow> byte CHR ''0'' \<le> byte c \<and> byte c \<le> byte CHR ''9''"

definition digit_val :: "char \<Rightarrow> nat" where
  "digit_val c = byte c - byte CHR ''0''"

definition ParseUint :: "string \<Rightarrow> nat option" where
  "ParseUint s =
     (if s \<noteq> [] \<and> list_all is_digit s
      then Some (foldl (\<lambda>n c. n * 10 + digit_val c) 0 s)
      else None)"

definition ParseInt :: "string \<Rightarrow> int option" where
  "ParseInt s =
     (case s of
        [] \<Rightarrow> None
      | c # cs \<Rightarrow>
          (let neg = (c = CHR ''-'');
               s' = (if c = CHR ''+'' \<or> c = CHR ''-'' then cs else s)
           in case ParseUint s' of
                None \<Rightarrow> None
              | Some un \<Rightarrow>
                  if \<not> neg \<and> 2 ^ 63 \<le> un then None
                  else if neg \<and> 2 ^ 63 < un then None
                  else Some (if neg then - int un else int un)))"

function formatBits :: "nat \<Rightarrow> string" where
  "formatBits u = (if u < 10 then [hex u] else formatBits (u div 10) @ [hex (u mod 10)])"
  by pat_completeness auto
termination
  by (relation "measure id") auto

declare formatBits.simps [simp del]

definition FormatInt :: "int \<Rightarrow> string" where
  "FormatInt i = (if i < 0 then CHR ''-'' # formatBits (nat (- i)) else formatBits (nat i))"

section \<open>JSON tokens (encoding/json, scanner.go)\<close>

datatype token =
    LBrace | RBrace | LBracket | RBracket | Colon | Comma
  | TString string
  | TNumber string
  | TTrue | TFalse | TNull

definition isSpace :: "char \<Rightarrow> bool" where
  "isSpace c \<longleftrightarrow> c = CHR '' '' \<or> c = CHR 0x09 \<or> c = CHR 0x0D \<or> c = CHR 0x0A"

definition is_hex :: "char \<Rightarrow> bool" where
  "is_hex c \<longleftrightarrow> hexval c \<noteq> None"

definition scanned :: "string \<Rightarrow> (string \<times> string) option \<Rightarrow> (string \<times> string) option" where
  "scanned pre r = map_option (\<lambda>(lit, rest). (pre @ lit, rest)) r"

fun scan_string :: "string \<Rightarrow> (string \<times> string) option" where
  "scan_string [] = None"
| "scan_string (c # cs) =
     (if c = dq then Some ([], cs)
      else if c = bs then
        (case cs of
           [] \<Rightarrow> None
         | e # es \<Rightarrow>
             if e = CHR ''b'' \<or> e = CHR ''f'' \<or> e = CHR ''n'' \<or> e = CHR ''r'' \<or> e = CHR ''t''
                \<or> e = bs \<or> e = CHR ''/'' \<or> e = dq
             then scanned [c, e] (scan_string es)
             else if e = CHR ''u'' then
               (case es of
                  h1 # h2 # h3 # h4 # es' \<Rightarrow>
                    if is_hex h1 \<and> is_hex h2 \<and> is_hex h3 \<and> is_hex h4
                    then scanned [c, e, h1, h2, h3, h4] (scan_string es')
                    else None
                | _ \<Rightarrow> None)
             else None)
      else if byte c < 0x20 then None
      else scanned [c] (scan_string cs))"

definition scan_int :: "string \<Rightarrow> (string \<times> string) option" where
  "scan_int s =
     (case s of
        [] \<Rightarrow> None
      | c # cs \<Rightarrow>
          if c = CHR ''0'' then Some ([c], cs)
          else if is_digit c then Some (c # takeWhile is_digit cs, dropWhile is_digit cs)
          else None)"

definition scan_digits1 :: "string \<Rightarrow> (string \<times> string) option" where
  "scan_digits1 s =
     (case s of
        [] \<Rightarrow> None
      | c # cs \<Rightarrow>
          if is_digit c then Some (c # takeWhile is_digit cs, dropWhile is_digit cs)
          else None)"

definition scan_frac :: "string \<Rightarrow> (string \<times> string) option" where
  "scan_frac s =
     (case s of
        [] \<Rightarrow> Some ([], s)
      | c # cs \<Rightarrow>
          if c = CHR ''.'' then scanned [c] (scan_digits1 cs)
          else Some ([], s))"

definition scan_exp :: "string \<Rightarrow> (string \<times> string) option" where
  "scan_exp s =
     (case s of
        [] \<Rightarrow> Some ([], s)
      | c # cs \<Rightarrow>
          if c = CHR ''e'' \<or> c = CHR ''E'' then
            (case cs of
               [] \<Rightarrow> None
             | g # ds \<Rightarrow>
                 if g = CHR ''+'' \<or> g = CHR ''-'' then scanned [c, g] (scan_digits1 ds)
                 else scanned [c] (scan_digits1 cs))
          else Some ([], s))"

definition scan_number :: "string \<Rightarrow> (string \<times> string) option" where
  "scan_number s =
     (case s of
        [] \<Rightarrow> None
      | c # cs \<Rightarrow>
          (let sg = (if c = CHR ''-'' then [c] else []);
               s0 = (if c = CHR ''-'' then cs else s)
           in case scan_int s0 of
                None \<Rightarrow> None
              | Some (i, s1) \<Rightarrow>
                  (case scan_frac s1 of
                     None \<Rightarrow> None
                   | Some (f, s2) \<Rightarrow>
                       (case scan_exp s2 of
                          None \<Rightarrow> None
                        | Some (e, s3) \<Rightarrow> Some (sg @ i @ f @ e, s3)))))"

definition tok :: "token \<Rightarrow> token list option \<Rightarrow> token list option" where
  "tok t r = map_option (\<lambda>ts. t # ts) r"

lemma scanned_Some: "scanned pre r = Some (lit, rest) \<Longrightarrow> \<exists>l. r = Some (l, rest) \<and> lit = pre @ l"
  by (cases r) (auto simp: scanned_def)

lemma scan_digits1_length: "scan_digits1 s = Some (lit, rest) \<Longrightarrow> length rest < length s"
    by (auto simp: scan_digits1_def split: list.splits if_splits
          intro: le_imp_less_Suc length_dropWhile_le)
lemma scan_int_length: "scan_int s = Some (lit, rest) \<Longrightarrow> length rest < length s" 
    by (auto simp: scan_int_def split: list.splits if_splits
          intro: le_imp_less_Suc length_dropWhile_le)
lemma scan_frac_length: "scan_frac s = Some (lit, rest) \<Longrightarrow> length rest \<le> length s" 
    by (auto simp: scan_frac_def split: list.splits if_splits dest!: scanned_Some scan_digits1_length)
lemma scan_exp_length: "scan_exp s = Some (lit, rest) \<Longrightarrow> length rest \<le> length s" 
    by (auto simp: scan_exp_def split: list.splits if_splits dest!: scanned_Some scan_digits1_length)
lemma scan_number_length: "scan_number s = Some (lit, rest) \<Longrightarrow> length rest < length s"
proof -
  assume a: "scan_number s = Some (lit, rest)"
  then obtain c cs where s: "s = c # cs" by (cases s) (auto simp: scan_number_def)
  define s0 where "s0 = (if c = CHR ''-'' then cs else s)"
  have l0: "length s0 \<le> length s" by (simp add: s0_def s)
  from a obtain i s1 f s2 e where i: "scan_int s0 = Some (i, s1)"
    and f: "scan_frac s1 = Some (f, s2)" and e: "scan_exp s2 = Some (e, rest)"
    by (auto simp: scan_number_def s s0_def Let_def split: option.splits if_splits)
  from scan_int_length[OF i] scan_frac_length[OF f] scan_exp_length[OF e] l0 show ?thesis by simp
qed

lemma scan_string_length: "scan_string s = Some (lit, rest) \<Longrightarrow> length rest < length s"
proof (induction s arbitrary: lit rest rule: scan_string.induct)
  case 1
  then show ?case by simp
next
  case (2 c cs)
  show ?case
  proof (cases "c = dq")
    case True
    with "2.prems" show ?thesis by simp
  next
    case ndq: False
    show ?thesis
    proof (cases "c = bs")
      case False
      with ndq "2.prems" obtain l where "scan_string cs = Some (l, rest)" "\<not> byte c < 0x20"
        by (auto split: if_splits dest!: scanned_Some)
      with "2.IH"(3)[OF ndq False] show ?thesis by fastforce
    next
      case True
      with ndq "2.prems" obtain e es where cs: "cs = e # es"
        by (cases cs) auto
      show ?thesis
      proof (cases "e = CHR ''b'' \<or> e = CHR ''f'' \<or> e = CHR ''n'' \<or> e = CHR ''r'' \<or> e = CHR ''t''
                \<or> e = bs \<or> e = CHR ''/'' \<or> e = dq")
        case simple: True
        with ndq True cs "2.prems" obtain l where "scan_string es = Some (l, rest)"
          by (auto dest!: scanned_Some)
        with "2.IH"(1)[OF ndq True cs simple] show ?thesis by (simp add: cs)
      next
        case nsimple: False
        with ndq True cs "2.prems" have u: "e = CHR ''u''"
          by (auto split: if_splits)
        with nsimple ndq True cs "2.prems" obtain h1 h2 h3 h4 es' l where
          es: "es = h1 # h2 # h3 # h4 # es'" and hx: "is_hex h1 \<and> is_hex h2 \<and> is_hex h3 \<and> is_hex h4"
          and r: "scan_string es' = Some (l, rest)"
          by (auto split: if_splits list.splits dest!: scanned_Some)
        from "2.IH"(2)[OF ndq True cs nsimple u es refl refl refl hx r] show ?thesis
          by (simp add: cs es)
      qed
    qed
  qed
qed

function tokenize :: "string \<Rightarrow> token list option" where
  "tokenize [] = Some []"
| "tokenize (c # cs) =
     (if isSpace c then tokenize cs
      else if c = CHR ''{'' then tok LBrace (tokenize cs)
      else if c = CHR ''}'' then tok RBrace (tokenize cs)
      else if c = CHR ''['' then tok LBracket (tokenize cs)
      else if c = CHR '']'' then tok RBracket (tokenize cs)
      else if c = CHR '':'' then tok Colon (tokenize cs)
      else if c = CHR '','' then tok Comma (tokenize cs)
      else if c = dq then
        (case scan_string cs of
           None \<Rightarrow> None
         | Some (lit, rest) \<Rightarrow> tok (TString lit) (tokenize rest))
      else if c = CHR ''-'' \<or> is_digit c then
        (case scan_number (c # cs) of
           None \<Rightarrow> None
         | Some (lit, rest) \<Rightarrow> tok (TNumber lit) (tokenize rest))
      else if c = CHR ''t'' then
        (if take 3 cs = ''rue'' then tok TTrue (tokenize (drop 3 cs)) else None)
      else if c = CHR ''f'' then
        (if take 4 cs = ''alse'' then tok TFalse (tokenize (drop 4 cs)) else None)
      else if c = CHR ''n'' then
        (if take 3 cs = ''ull'' then tok TNull (tokenize (drop 3 cs)) else None)
      else None)"
  by pat_completeness auto
termination
proof (relation "measure length", goal_cases)
  case (9 c cs x2 x y)
  then show ?case using scan_string_length[of cs x y] by simp
next
  case (10 c cs x2 x y)
  then show ?case using scan_number_length[of "c # cs" x y] by simp
qed simp_all

section \<open>JSON values (encoding/json, decode.go)\<close>

datatype json =
    JNull
  | JBool bool
  | JNumber string
  | JString string
  | JArray "json list"
  | JObject "(string \<times> json) list"

datatype parseState =
    parseObject "(string \<times> json) list" "string option"
  | parseArray "json list"

datatype scanStep =
    stateBeginValue
  | stateBeginValueOrEmpty
  | stateBeginStringOrEmpty
  | stateBeginString
  | stateEndKey
  | stateEndValue
  | stateEndTop json

definition maxNestingDepth :: nat where
  "maxNestingDepth = 10000"

definition endValue :: "json \<Rightarrow> parseState list \<Rightarrow> (scanStep \<times> parseState list) option" where
  "endValue v ps =
     (case ps of
        [] \<Rightarrow> Some (stateEndTop v, [])
      | parseObject ms (Some k) # ps' \<Rightarrow> Some (stateEndValue, parseObject (ms @ [(k, v)]) None # ps')
      | parseObject ms None # ps' \<Rightarrow> None
      | parseArray es # ps' \<Rightarrow> Some (stateEndValue, parseArray (es @ [v]) # ps'))"

definition pushParseState ::
  "parseState \<Rightarrow> scanStep \<Rightarrow> parseState list \<Rightarrow> (scanStep \<times> parseState list) option" where
  "pushParseState p next ps =
     (if length (p # ps) \<le> maxNestingDepth then Some (next, p # ps) else None)"

definition beginValue :: "token \<Rightarrow> parseState list \<Rightarrow> (scanStep \<times> parseState list) option" where
  "beginValue t ps =
     (case t of
        LBrace \<Rightarrow> pushParseState (parseObject [] None) stateBeginStringOrEmpty ps
      | LBracket \<Rightarrow> pushParseState (parseArray []) stateBeginValueOrEmpty ps
      | TString lit \<Rightarrow>
          (case unquoteBytes lit of None \<Rightarrow> None | Some s \<Rightarrow> endValue (JString s) ps)
      | TNumber lit \<Rightarrow> endValue (JNumber lit) ps
      | TTrue \<Rightarrow> endValue (JBool True) ps
      | TFalse \<Rightarrow> endValue (JBool False) ps
      | TNull \<Rightarrow> endValue JNull ps
      | _ \<Rightarrow> None)"

definition beginString :: "token \<Rightarrow> parseState list \<Rightarrow> (scanStep \<times> parseState list) option" where
  "beginString t ps =
     (case (t, ps) of
        (TString lit, parseObject ms None # ps') \<Rightarrow>
          (case unquoteBytes lit of
             None \<Rightarrow> None
           | Some k \<Rightarrow> Some (stateEndKey, parseObject ms (Some k) # ps'))
      | _ \<Rightarrow> None)"

definition step :: "scanStep \<times> parseState list \<Rightarrow> token \<Rightarrow> (scanStep \<times> parseState list) option" where
  "step st t =
     (case st of
        (stateBeginValue, ps) \<Rightarrow> beginValue t ps
      | (stateBeginValueOrEmpty, ps) \<Rightarrow>
          (case (t, ps) of
             (RBracket, parseArray es # ps') \<Rightarrow> endValue (JArray es) ps'
           | _ \<Rightarrow> beginValue t ps)
      | (stateBeginStringOrEmpty, ps) \<Rightarrow>
          (case (t, ps) of
             (RBrace, parseObject ms None # ps') \<Rightarrow> endValue (JObject ms) ps'
           | _ \<Rightarrow> beginString t ps)
      | (stateBeginString, ps) \<Rightarrow> beginString t ps
      | (stateEndKey, ps) \<Rightarrow> (if t = Colon then Some (stateBeginValue, ps) else None)
      | (stateEndValue, ps) \<Rightarrow>
          (case (t, ps) of
             (Comma, parseObject ms None # ps') \<Rightarrow> Some (stateBeginString, ps)
           | (RBrace, parseObject ms None # ps') \<Rightarrow> endValue (JObject ms) ps'
           | (Comma, parseArray es # ps') \<Rightarrow> Some (stateBeginValue, ps)
           | (RBracket, parseArray es # ps') \<Rightarrow> endValue (JArray es) ps'
           | _ \<Rightarrow> None)
      | (stateEndTop v, ps) \<Rightarrow> None)"

fun steps :: "scanStep \<times> parseState list \<Rightarrow> token list \<Rightarrow> (scanStep \<times> parseState list) option" where
  "steps st [] = Some st"
| "steps st (t # ts) = (case step st t of None \<Rightarrow> None | Some st' \<Rightarrow> steps st' ts)"

definition parse :: "string \<Rightarrow> json option" where
  "parse data =
     (case tokenize data of
        None \<Rightarrow> None
      | Some ts \<Rightarrow>
          (case steps (stateBeginValue, []) ts of
             Some (stateEndTop v, _) \<Rightarrow> Some v
           | _ \<Rightarrow> None))"

section \<open>The token record and its JSON coding\<close>

record TokenResponse =
  AccessToken :: string
  RefreshToken :: string
  TokenType :: string
  ExpiresIn :: int
  IdToken :: string

definition zeroTokenResponse :: TokenResponse where
  "zeroTokenResponse =
     \<lparr>AccessToken = [], RefreshToken = [], TokenType = [], ExpiresIn = 0, IdToken = []\<rparr>"

datatype error =
    SyntaxError
  | UnmarshalTypeError string string
  | errorString string

definition structFields :: "string list" where
  "structFields = [''access_token'', ''refresh_token'', ''token_type'', ''expires_in'', ''id_token'']"

definition toUpper :: "char \<Rightarrow> char" where
  "toUpper c =
     (if byte CHR ''a'' \<le> byte c \<and> byte c \<le> byte CHR ''z'' then char_of (byte c - 32) else c)"

definition foldRune :: "nat \<Rightarrow> nat" where
  "foldRune r = (if r = 0x17F then 0x53 else if r = 0x212A then 0x4B else r)"

fun foldName :: "string \<Rightarrow> string" where
  "foldName [] = []"
| "foldName (c # cs) =
     (if byte c < 0x80 then toUpper c # foldName cs
      else EncodeRune (foldRune (fst (DecodeRune (c # cs))))
             @ foldName (drop (snd (DecodeRune (c # cs)) - 1) cs))"

definition findField :: "string \<Rightarrow> string option" where
  "findField key =
     (if key \<in> set structFields then Some key
      else find (\<lambda>f. foldName f = foldName key) structFields)"

definition valueKind :: "json \<Rightarrow> string" where
  "valueKind v =
     (case v of
        JNull \<Rightarrow> ''null''
      | JBool _ \<Rightarrow> ''bool''
      | JNumber _ \<Rightarrow> ''number''
      | JString _ \<Rightarrow> ''string''
      | JArray _ \<Rightarrow> ''array''
      | JObject _ \<Rightarrow> ''object'')"

definition storeString ::
  "string \<Rightarrow> (string \<Rightarrow> TokenResponse \<Rightarrow> TokenResponse) \<Rightarrow> json \<Rightarrow> TokenResponse
     \<Rightarrow> error + TokenResponse" where
  "storeString f upd v r =
     (case v of
        JNull \<Rightarrow> Inr r
      | JString s \<Rightarrow> Inr (upd s r)
      | _ \<Rightarrow> Inl (UnmarshalTypeError (valueKind v) f))"

definition storeInt ::
  "string \<Rightarrow> (int \<Rightarrow> TokenResponse \<Rightarrow> TokenResponse) \<Rightarrow> json \<Rightarrow> TokenResponse
     \<Rightarrow> error + TokenResponse" where
  "storeInt f upd v r =
     (case v of
        JNull \<Rightarrow> Inr r
      | JNumber lit \<Rightarrow>
          (case ParseInt lit of
             None \<Rightarrow> Inl (UnmarshalTypeError (''number '' @ lit) f)
           | Some n \<Rightarrow> Inr (upd n r))
      | _ \<Rightarrow> Inl (UnmarshalTypeError (valueKind v) f))"

definition storeField :: "string \<Rightarrow> json \<Rightarrow> TokenResponse \<Rightarrow> error + TokenResponse" where
  "storeField f v r =
     (if f = ''access_token'' then storeString f (\<lambda>s r. r\<lparr>AccessToken := s\<rparr>) v r
      else if f = ''refresh_token'' then storeString f (\<lambda>s r. r\<lparr>RefreshToken := s\<rparr>) v r
      else if f = ''token_type'' then storeString f (\<lambda>s r. r\<lparr>TokenType := s\<rparr>) v r
      else if f = ''expires_in'' then storeInt f (\<lambda>n r. r\<lparr>ExpiresIn := n\<rparr>) v r
      else storeString f (\<lambda>s r. r\<lparr>IdToken := s\<rparr>) v r)"

fun object ::
  "(string \<times> json) list \<Rightarrow> TokenResponse \<times> error option
     \<Rightarrow> TokenResponse \<times> error option" where
  "object [] d = d"
| "object ((key, v) # ms) (r, savedError) =
     (case findField key of
        None \<Rightarrow> object ms (r, savedError)
      | Some f \<Rightarrow>
          (case storeField f v r of
             Inr r' \<Rightarrow> object ms (r', savedError)
           | Inl e \<Rightarrow> object ms (r, if savedError = None then Some e else savedError)))"

definition json_Unmarshal :: "string \<Rightarrow> error + TokenResponse" where
  "json_Unmarshal data =
     (case parse data of
        None \<Rightarrow> Inl SyntaxError
      | Some v \<Rightarrow>
          (case v of
             JNull \<Rightarrow> Inr zeroTokenResponse
           | JObject ms \<Rightarrow>
               (case object ms (zeroTokenResponse, None) of
                  (r, None) \<Rightarrow> Inr r
                | (r, Some e) \<Rightarrow> Inl e)
           | _ \<Rightarrow> Inl (UnmarshalTypeError (valueKind v) [])))"

definition json_Marshal :: "TokenResponse \<Rightarrow> error + string" where
  "json_Marshal r =
     Inr (''{'' @ quote ''access_token'' @ '':'' @ quote (AccessToken r)
          @ '','' @ quote ''refresh_token'' @ '':'' @ quote (RefreshToken r)
          @ '','' @ quote ''token_type'' @ '':'' @ quote (TokenType r)
          @ '','' @ quote ''expires_in'' @ '':'' @ FormatInt (ExpiresIn r)
          @ '','' @ quote ''id_token'' @ '':'' @ quote (IdToken r)
          @ ''}'')"

definition accessTokenToIdTokenResponseBodyModifier :: "string \<Rightarrow> error + string" where
  "accessTokenToIdTokenResponseBodyModifier body =
     (case json_Unmarshal body of
        Inl err \<Rightarrow> Inl err
      | Inr responseStruct \<Rightarrow>
          (case json_Marshal (responseStruct\<lparr>IdToken := AccessToken responseStruct\<rparr>) of
             Inl err \<Rightarrow> Inl err
           | Inr responseRaw \<Rightarrow> Inr responseRaw))"

section \<open>HTTP messages and the response writer (package net/http)\<close>

type_synonym Header = "(string \<times> string list) list"

definition Header_Get :: "Header \<Rightarrow> string \<Rightarrow> string" where
  "Header_Get h key = (case map_of h key of Some (v # _) \<Rightarrow> v | _ \<Rightarrow> [])"

definition Header_Set :: "Header \<Rightarrow> string \<Rightarrow> string \<Rightarrow> Header" where
  "Header_Set h key v = AList.update key [v] h"

definition Header_Del :: "Header \<Rightarrow> string \<Rightarrow> Header" where
  "Header_Del h key = AList.delete key h"

record Request =
  r_Method :: string
  r_Header :: Header
  r_Body :: "error + string"

record OutRequest =
  req_Method :: string
  req_URL :: string
  req_Header :: Header
  req_Body :: string

record Response =
  StatusCode :: int
  Status :: string
  resp_Header :: Header
  resp_Body :: "error + string"

record world =
  NewRequest_err :: "string \<Rightarrow> error option"
  client_Do :: "OutRequest \<Rightarrow> error + Response"
  write_err :: "error option"
  json_error_text :: "error \<Rightarrow> string"

definition Error :: "world \<Rightarrow> error \<Rightarrow> string" where
  "Error W err = (case err of errorString m \<Rightarrow> m | _ \<Rightarrow> json_error_text W err)"

definition http_NewRequest :: "world \<Rightarrow> string \<Rightarrow> string \<Rightarrow> string \<Rightarrow> error + OutRequest" where
  "http_NewRequest W method url body =
     (case NewRequest_err W url of
        Some err \<Rightarrow> Inl err
      | None \<Rightarrow> Inr \<lparr>req_Method = method, req_URL = url, req_Header = [], req_Body = body\<rparr>)"

record ResponseWriter =
  handlerHeader :: Header
  wroteHeader :: bool
  status :: int
  cw_header :: Header
  informational :: "(int \<times> Header) list"
  cw_body :: string

definition newResponseWriter :: ResponseWriter where
  "newResponseWriter =
     \<lparr>handlerHeader = [], wroteHeader = False, status = 0, cw_header = [],
       informational = [], cw_body = []\<rparr>"

definition StatusOK :: int where
  "StatusOK = 200"

definition StatusMethodNotAllowed :: int where
  "StatusMethodNotAllowed = 405"

definition StatusInternalServerError :: int where
  "StatusInternalServerError = 500"

definition WriteHeader :: "int \<Rightarrow> ResponseWriter \<Rightarrow> string + ResponseWriter" where
  "WriteHeader code w =
     (if wroteHeader w then Inr w
      else if code < 100 \<or> 999 < code then Inl ''invalid WriteHeader code''
      else if 100 \<le> code \<and> code \<le> 199 \<and> code \<noteq> 101
        then Inr (w\<lparr>informational := informational w @ [(code, handlerHeader w)]\<rparr>)
      else Inr (w\<lparr>wroteHeader := True, status := code, cw_header := handlerHeader w\<rparr>))"

definition bodyAllowedForStatus :: "int \<Rightarrow> bool" where
  "bodyAllowedForStatus code \<longleftrightarrow>
     \<not> (100 \<le> code \<and> code \<le> 199) \<and> code \<noteq> 204 \<and> code \<noteq> 304"

definition ErrBodyNotAllowed :: error where
  "ErrBodyNotAllowed = errorString ''http: request method or response status code does not allow body''"

text \<open>
  \<open>Write\<close> is \<open>(*response).Write\<close> of the server. Its second argument is the method of
  the request the writer serves (\<open>w.req.Method\<close> in net/http): the first write sends the
  header with status 200 when none was written, a status that allows no body refuses the
  bytes, and for a HEAD request the bytes are accepted and discarded.
\<close>

definition Write ::
  "world \<Rightarrow> string \<Rightarrow> string \<Rightarrow> ResponseWriter \<Rightarrow> ResponseWriter \<times> error option" where
  "Write W reqMethod data w =
     (let w1 = (if wroteHeader w then w
                else w\<lparr>wroteHeader := True, status := StatusOK, cw_header := handlerHeader w\<rparr>)
      in if data = [] then (w1, None)
         else if \<not> bodyAllowedForStatus (status w1) then (w1, Some ErrBodyNotAllowed)
         else if reqMethod = ''HEAD'' then (w1, None)
         else (w1\<lparr>cw_body := cw_body w1 @ data\<rparr>, write_err W))"

definition http_Error ::
  "world \<Rightarrow> string \<Rightarrow> ResponseWriter \<Rightarrow> string \<Rightarrow> int \<Rightarrow> string + ResponseWriter" where
  "http_Error W reqMethod w msg code =
     (let h = Header_Set (Header_Set (Header_Del (handlerHeader w) ''Content-Length'')
                ''Content-Type'' ''text/plain; charset=utf-8'')
                ''X-Content-Type-Options'' ''nosniff''
      in case WriteHeader code (w\<lparr>handlerHeader := h\<rparr>) of
           Inl p \<Rightarrow> Inl p
         | Inr w' \<Rightarrow> Inr (fst (Write W reqMethod (msg @ [CHR 0x0A]) w')))"

section \<open>The proxy handlers (b2bi-oidc-proxy.go)\<close>

record Backend =
  TokenEndpoint :: string
  IntrospectionEndpoint :: string

record Listener =
  ListenPort :: int

record Config =
  Backend :: Backend
  Listener :: Listener

type_synonym ResponseBodyModifier = "string \<Rightarrow> error + string"

datatype event =
    BackendCall OutRequest
  | ModifierCall string
  | Stderr string

type_synonym outcome = "(string + ResponseWriter) \<times> event list"

fun strings_Join :: "string list \<Rightarrow> string \<Rightarrow> string" where
  "strings_Join [] sep = []"
| "strings_Join [x] sep = x"
| "strings_Join (x # y # ys) sep = x @ sep @ strings_Join (y # ys) sep"

definition debugDump :: "Response \<Rightarrow> string \<Rightarrow> event list" where
  "debugDump backendResponse body =
     [Stderr ''Debug enabled. Dumping response from backend:'', Stderr ''Headers:'']
     @ map (\<lambda>(k, vs). Stderr (k @ '': '' @ strings_Join vs '','')) (resp_Header backendResponse)
     @ [Stderr ''Body:'', Stderr body]"

definition writeResponse ::
  "world \<Rightarrow> string \<Rightarrow> string \<Rightarrow> ResponseWriter \<Rightarrow> event list \<Rightarrow> outcome" where
  "writeResponse W reqMethod data w tr =
     (case Write W reqMethod data w of
        (w', Some err) \<Rightarrow>
          (Inr w', tr @ [Stderr (''Failure sending response to client: '' @ Error W err)])
      | (w', None) \<Rightarrow> (Inr w', tr))"

definition proxyingPostHandlerWithResponseModifier ::
  "world \<Rightarrow> string \<Rightarrow> ResponseBodyModifier option \<Rightarrow> Config \<Rightarrow> bool
     \<Rightarrow> ResponseWriter \<Rightarrow> Request \<Rightarrow> outcome" where
  "proxyingPostHandlerWithResponseModifier W backendUrl responseBodyModifier config debug w r =
     (if r_Method r = ''POST'' then
        (case r_Body r of
           Inl err \<Rightarrow>
             (http_Error W (r_Method r) w ''Error reading request body'' StatusInternalServerError, [])
         | Inr body \<Rightarrow>
             (case http_NewRequest W ''POST'' backendUrl body of
                Inl err \<Rightarrow>
                  (http_Error W (r_Method r) w ''Error creating outbound request'' StatusInternalServerError, [])
              | Inr req \<Rightarrow>
                  (let backendReq = req\<lparr>req_Header := r_Header r\<rparr>
                   in case client_Do W backendReq of
                        Inl err \<Rightarrow>
                          (http_Error W (r_Method r) w (''Error connecting to backend: '' @ Error W err)
                             StatusInternalServerError,
                           [BackendCall backendReq])
                      | Inr backendResponse \<Rightarrow>
                          (case resp_Body backendResponse of
                             Inl err \<Rightarrow>
                               (http_Error W (r_Method r) w
                                  (''Error reading response from backend: '' @ Error W err)
                                  StatusInternalServerError,
                                [BackendCall backendReq])
                           | Inr body \<Rightarrow>
                               if 300 \<le> StatusCode backendResponse
                                  \<or> StatusCode backendResponse < 200
                               then writeResponse W (r_Method r) body w [BackendCall backendReq]
                               else
                                 (let tr = BackendCall backendReq
                                        # (if debug then debugDump backendResponse body else [])
                                  in case responseBodyModifier of
                                       Some modifier \<Rightarrow>
                                         (case modifier body of
                                            Inl err \<Rightarrow>
                                              (http_Error W (r_Method r) w
                                                 (''Error processing request body modifier: ''
                                                    @ Error W err)
                                                 StatusInternalServerError,
                                               tr @ [ModifierCall body])
                                          | Inr responseBody \<Rightarrow>
                                              writeResponse W (r_Method r) responseBody
                                                (w\<lparr>handlerHeader := Header_Set (handlerHeader w) ''Content-Type''
                                                     (Header_Get (resp_Header backendResponse)
                                                        ''Content-Type'')\<rparr>)
                                                (tr @ [ModifierCall body]))
                                     | None \<Rightarrow>
                                         writeResponse W (r_Method r) body
                                           (w\<lparr>handlerHeader := Header_Set (handlerHeader w) ''Content-Type''
                                                (Header_Get (resp_Header backendResponse)
                                                   ''Content-Type'')\<rparr>)
                                           tr)))))
      else
        (http_Error W (r_Method r) w ''(proxyingPostHandlerWithResponseModifier) Invalid request method''
           StatusMethodNotAllowed,
         []))"

definition postTokenHandler ::
  "world \<Rightarrow> Config \<Rightarrow> bool \<Rightarrow> ResponseWriter \<Rightarrow> Request \<Rightarrow> outcome" where
  "postTokenHandler W config debug w r =
     (if r_Method r = ''POST'' then
        (case r_Body r of
           Inl err \<Rightarrow>
             (http_Error W (r_Method r) w ''Error reading request body'' StatusInternalServerError, [])
         | Inr body \<Rightarrow>
             (case http_NewRequest W ''POST'' (TokenEndpoint (Backend config)) body of
                Inl err \<Rightarrow>
                  (http_Error W (r_Method r) w ''Error creating outbound request'' StatusInternalServerError, [])
              | Inr req \<Rightarrow>
                  (let backendReq = req\<lparr>req_Header := r_Header r\<rparr>
                   in case client_Do W backendReq of
                        Inl err \<Rightarrow>
                          (http_Error W (r_Method r) w (''Error connecting to backend: '' @ Error W err)
                             StatusInternalServerError,
                           [BackendCall backendReq])
                      | Inr backendResponse \<Rightarrow>
                          if 300 \<le> StatusCode backendResponse
                             \<or> StatusCode backendResponse < 200
                          then
                            (http_Error W (r_Method r) w
                               (''Backend returned a non-success response: ''
                                  @ Status backendResponse)
                               (StatusCode backendResponse),
                             [BackendCall backendReq])
                          else
                            (case resp_Body backendResponse of
                               Inl err \<Rightarrow>
                                 (http_Error W (r_Method r) w
                                    (''Error reading response from backend: '' @ Error W err)
                                    StatusInternalServerError,
                                  [BackendCall backendReq])
                             | Inr body \<Rightarrow>
                                 (let tr = BackendCall backendReq
                                        # (if debug then debugDump backendResponse body else [])
                                  in case json_Unmarshal body of
                                       Inl err \<Rightarrow>
                                         (http_Error W (r_Method r) w
                                            (''Error parsing request body: '' @ Error W err)
                                            StatusInternalServerError,
                                          tr)
                                     | Inr responseStruct \<Rightarrow>
                                         (case json_Marshal
                                                 (responseStruct
                                                    \<lparr>IdToken := AccessToken responseStruct\<rparr>) of
                                            Inl err \<Rightarrow>
                                              (http_Error W (r_Method r) w
                                                 (''Error creating response: '' @ Error W err)
                                                 StatusInternalServerError,
                                               tr)
                                          | Inr responseRaw \<Rightarrow>
                                              writeResponse W (r_Method r) responseRaw
                                                (w\<lparr>handlerHeader := Header_Set (handlerHeader w) ''Content-Type''
                                                     (Header_Get (resp_Header backendResponse)
                                                        ''Content-Type'')\<rparr>)
                                                tr))))))
      else (http_Error W (r_Method r) w ''Invalid request method'' StatusMethodNotAllowed, []))"

definition tokenRoute :: "world \<Rightarrow> Config \<Rightarrow> bool \<Rightarrow> ResponseWriter \<Rightarrow> Request \<Rightarrow> outcome" where
  "tokenRoute W config debug =
     proxyingPostHandlerWithResponseModifier W (TokenEndpoint (Backend config))
       (Some accessTokenToIdTokenResponseBodyModifier) config debug"

definition introspectionRoute ::
  "world \<Rightarrow> Config \<Rightarrow> bool \<Rightarrow> ResponseWriter \<Rightarrow> Request \<Rightarrow> outcome" where
  "introspectionRoute W config debug =
     proxyingPostHandlerWithResponseModifier W (IntrospectionEndpoint (Backend config))
       None config debug"

section \<open>Example exchanges\<close>

definition exampleWorld :: "Response \<Rightarrow> world" where
  "exampleWorld resp =
     \<lparr>NewRequest_err = (\<lambda>url. None), client_Do = (\<lambda>req. Inr resp), write_err = None,
      json_error_text = (\<lambda>err. ''invalid JSON'')\<rparr>"

definition exampleConfig :: Config where
  "exampleConfig =
     \<lparr>Backend = \<lparr>TokenEndpoint = ''http://idp.example/token'',
                   IntrospectionEndpoint = ''http://idp.example/introspect''\<rparr>,
      Listener = \<lparr>ListenPort = 8080\<rparr>\<rparr>"

definition examplePost :: Request where
  "examplePost =
     \<lparr>r_Method = ''POST'',
      r_Header = [(''Authorization'', [''Bearer xyz'']),
                  (''Content-Type'', [''application/x-www-form-urlencoded'']),
                  (''Content-Length'', [''29''])],
      r_Body = Inr ''grant_type=client_credentials''\<rparr>"

definition exampleGet :: Request where
  "exampleGet = \<lparr>r_Method = ''GET'', r_Header = [], r_Body = Inr []\<rparr>"

definition exampleHead :: Request where
  "exampleHead = \<lparr>r_Method = ''HEAD'', r_Header = [], r_Body = Inr []\<rparr>"

definition invalidGrant :: Response where
  "invalidGrant =
     \<lparr>StatusCode = 401, Status = ''401 Unauthorized'',
      resp_Header = [(''Content-Type'', [''application/json''])],
      resp_Body = Inr (''{'' @ quote ''error'' @ '':'' @ quote ''invalid_grant'' @ ''}'')\<rparr>"

definition malformedOK :: Response where
  "malformedOK =
     \<lparr>StatusCode = 200, Status = ''200 OK'',
      resp_Header = [(''Content-Type'', [''application/json''])],
      resp_Body = Inr ''{not json''\<rparr>"

definition emptyTypeOK :: Response where
  "emptyTypeOK =
     \<lparr>StatusCode = 200, Status = ''200 OK'', resp_Header = [], resp_Body = Inr ''ok''\<rparr>"

definition exampleTokenBody :: string where
  "exampleTokenBody =
     ''{'' @ quote ''access_token'' @ '':'' @ quote ''tok1'' @ '','' @ quote ''token_type''
       @ '':'' @ quote ''Bearer'' @ '','' @ quote ''expires_in'' @ '':3600}''"

definition tokenOK :: Response where
  "tokenOK =
     \<lparr>StatusCode = 200, Status = ''200 OK'',
      resp_Header = [(''Content-Type'', [''application/json''])],
      resp_Body = Inr exampleTokenBody\<rparr>"

text \<open>
  The documents of the examples are written with \<open>inQuotes\<close>: a text between double
  quotes, as it stands in a JSON document.
\<close>

definition inQuotes :: "string \<Rightarrow> string" where
  "inQuotes s = CHR 0x22 # s @ [CHR 0x22]"

definition exampleTokenOut :: string where
  "exampleTokenOut =
     ''{'' @ inQuotes ''access_token'' @ '':'' @ inQuotes ''tok1'' @ '',''
       @ inQuotes ''refresh_token'' @ '':'' @ inQuotes [] @ '',''
       @ inQuotes ''token_type'' @ '':'' @ inQuotes ''Bearer'' @ '',''
       @ inQuotes ''expires_in'' @ '':3600,''
       @ inQuotes ''id_token'' @ '':'' @ inQuotes ''tok1'' @ ''}''"




definition extraMembersBody :: string where
  "extraMembersBody =
     ''{'' @ inQuotes ''scope'' @ '':'' @ inQuotes ''read'' @ '',''
       @ inQuotes ''token_type'' @ '':'' @ inQuotes ''Bearer'' @ '',''
       @ inQuotes ''id_token'' @ '':'' @ inQuotes ''old'' @ '',''
       @ inQuotes ''access_token'' @ '':'' @ inQuotes ''tok1'' @ '',''
       @ inQuotes ''expires_in'' @ '':3600,''
       @ inQuotes ''extra'' @ '':[1,{'' @ inQuotes ''a'' @ '':null}]}''"

section \<open>Well-formed token records\<close>

text \<open>
  A token record is well formed when its strings are valid UTF-8 and its integer fits the
  64-bit \<open>int\<close> of the record. \<open>marshalled r\<close> is the text that \<open>json.Marshal\<close> returns for
  \<open>r\<close>. The remaining predicates say that the strings of a decoded value, down to the
  members of its top-level object, are valid UTF-8.
\<close>

definition wellFormed :: "TokenResponse \<Rightarrow> bool" where
  "wellFormed r \<longleftrightarrow>
     valid_utf8 (AccessToken r) \<and> valid_utf8 (RefreshToken r) \<and> valid_utf8 (TokenType r)
     \<and> valid_utf8 (IdToken r) \<and> - (2 ^ 63) \<le> ExpiresIn r \<and> ExpiresIn r < 2 ^ 63"

definition marshalled :: "TokenResponse \<Rightarrow> string" where
  "marshalled r = projr (json_Marshal r)"

definition shallow_ok :: "json \<Rightarrow> bool" where
  "shallow_ok v = (case v of JString s \<Rightarrow> valid_utf8 s | _ \<Rightarrow> True)"

definition members_ok :: "(string \<times> json) list \<Rightarrow> bool" where
  "members_ok ms = list_all (\<lambda>m. shallow_ok (snd m)) ms"

definition frame_ok :: "parseState \<Rightarrow> bool" where
  "frame_ok p = (case p of parseObject ms k \<Rightarrow> members_ok ms | parseArray es \<Rightarrow> True)"

definition top_ok :: "json \<Rightarrow> bool" where
  "top_ok v = (case v of JObject ms \<Rightarrow> members_ok ms | _ \<Rightarrow> True)"

definition state_ok :: "scanStep \<times> parseState list \<Rightarrow> bool" where
  "state_ok st =
     (list_all frame_ok (snd st) \<and> (case fst st of stateEndTop v \<Rightarrow> top_ok v | _ \<Rightarrow> True))"

section \<open>UTF-8: decoding and encoding are inverse on well-formed text\<close>

lemma dm2: "y < 64 \<Longrightarrow> (x * 64 + y) div 64 = (x::nat)" "y < 64 \<Longrightarrow> (x * 64 + y) mod 64 = y"
  by simp_all

lemma dm3:
  assumes "y < 64" "z < 64"
  shows "(x * 4096 + y * 64 + z) div 4096 = (x::nat)"
    "(x * 4096 + y * 64 + z) div 64 mod 64 = y"
    "(x * 4096 + y * 64 + z) mod 64 = z"
proof -
  let ?r = "x * 4096 + y * 64 + z"
  have e: "?r = (x * 64 + y) * 64 + z" by simp
  have d: "?r div 64 = x * 64 + y" by (simp only: e dm2 assms)
  show "?r div 64 mod 64 = y" by (simp only: d dm2 assms)
  show "?r mod 64 = z" by (simp only: e dm2 assms)
  have "?r div 4096 = ?r div 64 div 64"
    by (simp add: div_mult2_eq)
  then show "?r div 4096 = x" by (simp only: d dm2 assms)
qed

lemma dm4:
  assumes "y < 64" "z < 64" "u < 64"
  shows "(x * 262144 + y * 4096 + z * 64 + u) div 262144 = (x::nat)"
    "(x * 262144 + y * 4096 + z * 64 + u) div 4096 mod 64 = y"
    "(x * 262144 + y * 4096 + z * 64 + u) div 64 mod 64 = z"
    "(x * 262144 + y * 4096 + z * 64 + u) mod 64 = u"
proof -
  let ?r = "x * 262144 + y * 4096 + z * 64 + u"
  have e: "?r = ((x * 64 + y) * 64 + z) * 64 + u" by simp
  have d1: "?r div 64 = (x * 64 + y) * 64 + z" by (simp only: e dm2 assms)
  have d2: "?r div 4096 = x * 64 + y"
  proof -
    have "?r div 4096 = ?r div 64 div 64" by (simp add: div_mult2_eq)
    then show ?thesis by (simp only: d1 dm2 assms)
  qed
  show "?r mod 64 = u" by (simp only: e dm2 assms)
  show "?r div 64 mod 64 = z" by (simp only: d1 dm2 assms)
  show "?r div 4096 mod 64 = y" by (simp only: d2 dm2 assms)
  have "?r div 262144 = ?r div 4096 div 64" by (simp add: div_mult2_eq)
  then show "?r div 262144 = x" by (simp only: d2 dm2 assms)
qed

lemma off_mod:
  "x < 32 \<Longrightarrow> (192 + x) mod 32 = (x::nat)"
  "x < 16 \<Longrightarrow> (224 + x) mod 16 = (x::nat)"
  "x < 8 \<Longrightarrow> (240 + x) mod 8 = (x::nat)"
  "x < 64 \<Longrightarrow> (128 + x) mod 64 = (x::nat)"
  using mod_mult_self4[of 32 6 x] mod_mult_self4[of 16 14 x] mod_mult_self4[of 8 30 x]
    mod_mult_self4[of 64 2 x]
  by simp_all

lemma DecodeRune_ascii: "byte p0 < 0x80 \<Longrightarrow> DecodeRune (p0 # p) = (byte p0, 1)"
  by (simp add: DecodeRune.simps)

lemma DecodeRune_bad:
  "0x80 \<le> byte p0 \<Longrightarrow> byte p0 < 0xC2 \<or> 0xF4 < byte p0 \<Longrightarrow> DecodeRune (p0 # p) = (RuneError, 1)"
  by (simp add: DecodeRune.simps)

lemma DecodeRune_2:
  "0xC2 \<le> byte p0 \<Longrightarrow> byte p0 < 0xE0 \<Longrightarrow>
   DecodeRune (p0 # p) =
     (case p of
        p1 # _ \<Rightarrow>
          if accept p0 p1 then (byte p0 mod 32 * 64 + byte p1 mod 64, 2) else (RuneError, 1)
      | _ \<Rightarrow> (RuneError, 1))"
  by (simp add: DecodeRune.simps)

lemma DecodeRune_3:
  "0xE0 \<le> byte p0 \<Longrightarrow> byte p0 < 0xF0 \<Longrightarrow>
   DecodeRune (p0 # p) =
     (case p of
        p1 # p2 # _ \<Rightarrow>
          if accept p0 p1 \<and> cont p2
          then (byte p0 mod 16 * 4096 + byte p1 mod 64 * 64 + byte p2 mod 64, 3)
          else (RuneError, 1)
      | _ \<Rightarrow> (RuneError, 1))"
  by (simp add: DecodeRune.simps)

lemma DecodeRune_4:
  "0xF0 \<le> byte p0 \<Longrightarrow> byte p0 \<le> 0xF4 \<Longrightarrow>
   DecodeRune (p0 # p) =
     (case p of
        p1 # p2 # p3 # _ \<Rightarrow>
          if accept p0 p1 \<and> cont p2 \<and> cont p3
          then (byte p0 mod 8 * 262144 + byte p1 mod 64 * 4096
                  + byte p2 mod 64 * 64 + byte p3 mod 64, 4)
          else (RuneError, 1)
      | _ \<Rightarrow> (RuneError, 1))"
  by (simp add: DecodeRune.simps)

lemma DecodeRune_cases [consumes 2, case_names empty ascii two three four]:
  assumes "DecodeRune p = (r, n)" "(r, n) \<noteq> (RuneError, 1)"
  obtains
    "p = []" "r = RuneError" "n = 0"
  | p0 rest where "p = p0 # rest" "byte p0 < 0x80" "r = byte p0" "n = 1"
  | p0 p1 rest where "p = p0 # p1 # rest" "0xC2 \<le> byte p0" "byte p0 < 0xE0" "accept p0 p1"
      "r = byte p0 mod 32 * 64 + byte p1 mod 64" "n = 2"
  | p0 p1 p2 rest where "p = p0 # p1 # p2 # rest" "0xE0 \<le> byte p0" "byte p0 < 0xF0"
      "accept p0 p1" "cont p2"
      "r = byte p0 mod 16 * 4096 + byte p1 mod 64 * 64 + byte p2 mod 64" "n = 3"
  | p0 p1 p2 p3 rest where "p = p0 # p1 # p2 # p3 # rest" "0xF0 \<le> byte p0" "byte p0 \<le> 0xF4"
      "accept p0 p1" "cont p2" "cont p3"
      "r = byte p0 mod 8 * 262144 + byte p1 mod 64 * 4096 + byte p2 mod 64 * 64 + byte p3 mod 64"
      "n = 4"
proof (cases p)
  case Nil
  with assms that(1) show ?thesis by simp
next
  case (Cons p0 q)
  note p = this
  consider (a) "byte p0 < 0x80"
    | (b) "0x80 \<le> byte p0" "byte p0 < 0xC2 \<or> 0xF4 < byte p0"
    | (c) "0xC2 \<le> byte p0" "byte p0 < 0xE0"
    | (d) "0xE0 \<le> byte p0" "byte p0 < 0xF0"
    | (e) "0xF0 \<le> byte p0" "byte p0 \<le> 0xF4"
    by linarith
  then show ?thesis
  proof cases
    case a
    from assms(1) have "(byte p0, 1) = (r, n)" by (simp only: p DecodeRune_ascii[OF a])
    then have "r = byte p0" "n = 1" by simp_all
    then show ?thesis by (rule that(2)[OF p a])
  next
    case b
    from assms(1) have "(RuneError, 1) = (r, n)" by (simp only: p DecodeRune_bad[OF b])
    with assms(2) show ?thesis by simp
  next
    case c
    have dec: "DecodeRune (p0 # q) = (r, n)" using assms(1) by (simp only: p)
    show ?thesis
    proof (cases q)
      case Nil
      with dec assms(2) show ?thesis by (simp add: DecodeRune_2[OF c])
    next
      case (Cons p1 rest)
      with dec assms(2) have "accept p0 p1" "r = byte p0 mod 32 * 64 + byte p1 mod 64" "n = 2"
        by (auto simp: DecodeRune_2[OF c] split: if_splits)
      then show ?thesis using that(3)[of p0 p1 rest] p Cons c by blast
    qed
  next
    case d
    have dec: "DecodeRune (p0 # q) = (r, n)" using assms(1) by (simp only: p)
    show ?thesis
    proof (cases q)
      case Nil
      with dec assms(2) show ?thesis by (simp add: DecodeRune_3[OF d])
    next
      case q: (Cons p1 q1)
      show ?thesis
      proof (cases q1)
        case Nil
        with q dec assms(2) show ?thesis by (simp add: DecodeRune_3[OF d])
      next
        case (Cons p2 rest)
        with q dec assms(2) have "accept p0 p1" "cont p2"
          "r = byte p0 mod 16 * 4096 + byte p1 mod 64 * 64 + byte p2 mod 64" "n = 3"
          by (auto simp: DecodeRune_3[OF d] split: if_splits)
        then show ?thesis using that(4)[of p0 p1 p2 rest] p q Cons d by blast
      qed
    qed
  next
    case e
    have dec: "DecodeRune (p0 # q) = (r, n)" using assms(1) by (simp only: p)
    show ?thesis
    proof (cases q)
      case Nil
      with dec assms(2) show ?thesis by (simp add: DecodeRune_4[OF e])
    next
      case q: (Cons p1 q1)
      show ?thesis
      proof (cases q1)
        case Nil
        with q dec assms(2) show ?thesis by (simp add: DecodeRune_4[OF e])
      next
        case q1: (Cons p2 q2)
        show ?thesis
        proof (cases q2)
          case Nil
          with q q1 dec assms(2) show ?thesis by (simp add: DecodeRune_4[OF e])
        next
          case (Cons p3 rest)
          with q q1 dec assms(2) have "accept p0 p1" "cont p2" "cont p3"
            "r = byte p0 mod 8 * 262144 + byte p1 mod 64 * 4096 + byte p2 mod 64 * 64
                 + byte p3 mod 64" "n = 4"
            by (auto simp: DecodeRune_4[OF e] split: if_splits)
          then show ?thesis using that(5)[of p0 p1 p2 p3 rest] p q q1 Cons e by blast
        qed
      qed
    qed
  qed
qed

lemma EncodeRune_1: "r \<le> 0x7F \<Longrightarrow> EncodeRune r = [char_of r]"
  by (simp add: EncodeRune_def)

lemma EncodeRune_2:
  "\<not> r \<le> 0x7F \<Longrightarrow> r \<le> 0x7FF \<Longrightarrow>
   EncodeRune r = [char_of (192 + r div 64), char_of (128 + r mod 64)]"
  by (simp add: EncodeRune_def)

lemma EncodeRune_bad:
  "0x10FFFF < r \<or> (0xD800 \<le> r \<and> r \<le> 0xDFFF) \<Longrightarrow>
   EncodeRune r = [CHR 0xEF, CHR 0xBF, CHR 0xBD]"
  by (auto simp: EncodeRune_def)

lemma EncodeRune_3:
  "\<not> r \<le> 0x7FF \<Longrightarrow> \<not> (0xD800 \<le> r \<and> r \<le> 0xDFFF) \<Longrightarrow> r \<le> 0xFFFF \<Longrightarrow>
   EncodeRune r =
     [char_of (224 + r div 4096), char_of (128 + r div 64 mod 64), char_of (128 + r mod 64)]"
  by (auto simp: EncodeRune_def)

lemma EncodeRune_4:
  "\<not> r \<le> 0xFFFF \<Longrightarrow> r \<le> 0x10FFFF \<Longrightarrow>
   EncodeRune r =
     [char_of (240 + r div 262144), char_of (128 + r div 4096 mod 64),
      char_of (128 + r div 64 mod 64), char_of (128 + r mod 64)]"
  by (simp add: EncodeRune_def)

lemma char_of_byte_off: "byte c = k + x \<Longrightarrow> char_of (k + x) = c"
  by (metis char_of_char)

lemma EncodeRune_DecodeRune:
  assumes "DecodeRune p = (r, n)" "(r, n) \<noteq> (RuneError, 1)" "p \<noteq> []"
  shows "EncodeRune r = take n p \<and> 1 \<le> n \<and> n \<le> length p
         \<and> (1 < n \<longrightarrow> (\<forall>c\<in>set (take n p). 0x80 \<le> byte c))"
  using assms(1,2)
proof (cases rule: DecodeRune_cases)
  case empty
  with assms(3) show ?thesis by simp
next
  case (ascii p0 rest)
  then show ?thesis by (simp add: EncodeRune_def)
next
  case (two p0 p1 rest)
  define x where "x = byte p0 - 192"
  define y where "y = byte p1 - 128"
  from two have b: "byte p0 = 192 + x" "2 \<le> x" "x < 32" "byte p1 = 128 + y" "y < 64"
    by (auto simp: x_def y_def accept_def)
  have r: "r = x * 64 + y" by (simp only: two b off_mod)
  have rng: "\<not> r \<le> 0x7F" "r \<le> 0x7FF" using b unfolding r by auto
  have "EncodeRune r = [char_of (192 + x), char_of (128 + y)]"
    unfolding EncodeRune_2[OF rng] by (simp only: r dm2[OF b(5)])
  then have "EncodeRune r = [p0, p1]" by (simp only: char_of_byte_off[OF b(1)] char_of_byte_off[OF b(4)])
  with two b show ?thesis by simp
next
  case (three p0 p1 p2 rest)
  define x where "x = byte p0 - 224"
  define y where "y = byte p1 - 128"
  define z where "z = byte p2 - 128"
  from three have b: "byte p0 = 224 + x" "x < 16" "byte p1 = 128 + y" "y < 64"
    "byte p2 = 128 + z" "z < 64" "x = 0 \<longrightarrow> 32 \<le> y" "x = 13 \<longrightarrow> y < 32"
    by (auto simp: x_def y_def z_def accept_def cont_def split: if_splits)
  have r: "r = x * 4096 + y * 64 + z" by (simp only: three b off_mod)
  have sur: "\<not> (0xD800 \<le> r \<and> r \<le> 0xDFFF)"
  proof -
    consider "x \<le> 12" | "x = 13" | "14 \<le> x" by linarith
    then show ?thesis
    proof cases
      case 1
      with b show ?thesis unfolding r by simp
    next
      case 2
      with b show ?thesis unfolding r by simp
    next
      case 3
      with b show ?thesis unfolding r by simp
    qed
  qed
  have rng: "\<not> r \<le> 0x7FF" "r \<le> 0xFFFF"
    using b unfolding r by auto
  have "EncodeRune r = [char_of (224 + x), char_of (128 + y), char_of (128 + z)]"
    unfolding EncodeRune_3[OF rng(1) sur rng(2)] by (simp only: r dm3[OF b(4) b(6)])
  then have "EncodeRune r = [p0, p1, p2]"
    by (simp only: char_of_byte_off[OF b(1)] char_of_byte_off[OF b(3)] char_of_byte_off[OF b(5)])
  with three b show ?thesis by simp
next
  case (four p0 p1 p2 p3 rest)
  define x where "x = byte p0 - 240"
  define y where "y = byte p1 - 128"
  define z where "z = byte p2 - 128"
  define u where "u = byte p3 - 128"
  from four have b: "byte p0 = 240 + x" "x < 5" "byte p1 = 128 + y" "y < 64"
    "byte p2 = 128 + z" "z < 64" "byte p3 = 128 + u" "u < 64"
    "x = 0 \<longrightarrow> 16 \<le> y" "x = 4 \<longrightarrow> y < 16"
    by (auto simp: x_def y_def z_def u_def accept_def cont_def split: if_splits)
  have x8: "x < 8" using b by simp
  have r: "r = x * 262144 + y * 4096 + z * 64 + u" by (simp only: four b off_mod x8)
  have rng: "\<not> r \<le> 0xFFFF \<and> r \<le> 0x10FFFF"
  proof -
    consider "x = 0" | "1 \<le> x \<and> x \<le> 3" | "x = 4" using b by linarith
    then show ?thesis
    proof cases
      case 1
      with b show ?thesis unfolding r by simp
    next
      case 2
      with b show ?thesis unfolding r by simp
    next
      case 3
      with b show ?thesis unfolding r by simp
    qed
  qed
  have "EncodeRune r = [char_of (240 + x), char_of (128 + y), char_of (128 + z), char_of (128 + u)]"
    unfolding EncodeRune_4[OF conjunct1[OF rng] conjunct2[OF rng]]
    by (simp only: r dm4[OF b(4) b(6) b(8)])
  then have "EncodeRune r = [p0, p1, p2, p3]"
    by (simp only: char_of_byte_off[OF b(1)] char_of_byte_off[OF b(3)] char_of_byte_off[OF b(5)]
        char_of_byte_off[OF b(7)])
  with four b show ?thesis by simp
qed

lemma DecodeRune_prefix:
  assumes "DecodeRune p = (r, n)" "(r, n) \<noteq> (RuneError, 1)" "p \<noteq> []"
  shows "DecodeRune (take n p @ q) = (r, n)"
  using assms(1,2)
proof (cases rule: DecodeRune_cases)
  case empty
  with assms(3) show ?thesis by simp
next
  case (ascii p0 rest)
  then show ?thesis by (simp add: DecodeRune_ascii)
next
  case (two p0 p1 rest)
  then show ?thesis by (simp add: DecodeRune_2)
next
  case (three p0 p1 p2 rest)
  then show ?thesis by (simp add: DecodeRune_3)
next
  case (four p0 p1 p2 p3 rest)
  then show ?thesis by (simp add: DecodeRune_4)
qed

lemma split3: "(r::nat) = r div 4096 * 4096 + r div 64 mod 64 * 64 + r mod 64"
proof -
  have alg: "(A * 64 + B) * 64 + C = A * 4096 + B * 64 + C" for A B C :: nat by simp
  have a: "r div 4096 = r div 64 div 64" by (simp add: div_mult2_eq)
  have "r = (r div 64 div 64 * 64 + r div 64 mod 64) * 64 + r mod 64" by simp
  then show ?thesis unfolding a alg .
qed

lemma split4:
  "(r::nat) = r div 262144 * 262144 + r div 4096 mod 64 * 4096 + r div 64 mod 64 * 64 + r mod 64"
proof -
  have alg: "((A * 64 + B) * 64 + C) * 64 + D = A * 262144 + B * 4096 + C * 64 + D"
    for A B C D :: nat by simp
  have a: "r div 4096 = r div 64 div 64" by (simp add: div_mult2_eq)
  have b: "r div 262144 = r div 64 div 64 div 64" by (simp add: div_mult2_eq)
  have "r = ((r div 64 div 64 div 64 * 64 + r div 64 div 64 mod 64) * 64 + r div 64 mod 64) * 64
              + r mod 64" by simp
  then show ?thesis unfolding a b alg .
qed

lemma DecodeRune_EncodeRune:
  "DecodeRune (EncodeRune r @ s) \<noteq> (RuneError, 1) \<and>
   snd (DecodeRune (EncodeRune r @ s)) = length (EncodeRune r)"
proof -
  consider (one) "r \<le> 0x7F" | (two) "\<not> r \<le> 0x7F" "r \<le> 0x7FF"
    | (bad) "0x10FFFF < r \<or> (0xD800 \<le> r \<and> r \<le> 0xDFFF)"
    | (three) "\<not> r \<le> 0x7FF" "\<not> (0xD800 \<le> r \<and> r \<le> 0xDFFF)" "r \<le> 0xFFFF"
    | (four) "\<not> r \<le> 0xFFFF" "r \<le> 0x10FFFF"
    by linarith
  then show ?thesis
  proof cases
    case one
    then have "byte (char_of r) = r" by simp
    with one show ?thesis
      by (simp add: EncodeRune_1 DecodeRune_ascii RuneError_def)
  next
    case two
    define x where "x = r div 64"
    define y where "y = r mod 64"
    have b: "2 \<le> x" "x < 32" "y < 64" using two by (auto simp: x_def y_def)
    have p0: "byte (char_of (192 + x)) = 192 + x" and p1: "byte (char_of (128 + y)) = 128 + y"
      using b by simp_all
    have acc: "accept (char_of (192 + x)) (char_of (128 + y))"
      unfolding accept_def p0 p1 using b by simp
    have "DecodeRune (char_of (192 + x) # char_of (128 + y) # s)
            = ((192 + x) mod 32 * 64 + (128 + y) mod 64, 2)"
      using acc b by (subst DecodeRune_2) (simp_all add: p0 p1)
    then show ?thesis
      unfolding EncodeRune_2[OF two] x_def[symmetric] y_def[symmetric] by simp
  next
    case bad
    have "DecodeRune (CHR 0xEF # CHR 0xBF # CHR 0xBD # s) = (RuneError, 3)"
      by (subst DecodeRune_3) (simp_all add: accept_def cont_def RuneError_def)
    then show ?thesis unfolding EncodeRune_bad[OF bad] by simp
  next
    case three
    define x where "x = r div 4096"
    define y where "y = r div 64 mod 64"
    define z where "z = r mod 64"
    have r: "r = x * 4096 + y * 64 + z" unfolding x_def y_def z_def by (rule split3)
    have b: "y < 64" "z < 64" by (simp_all add: y_def z_def)
    have x: "x < 16" using three(3) b unfolding r by simp
    have x0: "x = 0 \<Longrightarrow> 32 \<le> y" using three(1) b unfolding r by simp
    have x13: "x = 13 \<Longrightarrow> y < 32" using three(2) b unfolding r by simp
    have p0: "byte (char_of (224 + x)) = 224 + x" and p1: "byte (char_of (128 + y)) = 128 + y"
      and p2: "byte (char_of (128 + z)) = 128 + z"
      using b x by simp_all
    have acc: "accept (char_of (224 + x)) (char_of (128 + y))"
      unfolding accept_def p0 p1 using b x x0 x13 by auto
    have c: "cont (char_of (128 + z))" unfolding cont_def p2 using b by simp
    have "snd (DecodeRune (char_of (224 + x) # char_of (128 + y) # char_of (128 + z) # s)) = 3"
      using acc c x by (subst DecodeRune_3) (simp_all add: p0)
    then show ?thesis
      unfolding EncodeRune_3[OF three] x_def[symmetric] y_def[symmetric] z_def[symmetric]
      by auto
  next
    case four
    define x where "x = r div 262144"
    define y where "y = r div 4096 mod 64"
    define z where "z = r div 64 mod 64"
    define u where "u = r mod 64"
    have r: "r = x * 262144 + y * 4096 + z * 64 + u"
      unfolding x_def y_def z_def u_def by (rule split4)
    have b: "y < 64" "z < 64" "u < 64" by (simp_all add: y_def z_def u_def)
    have x: "x < 5" using four(2) b unfolding r by simp
    have x0: "x = 0 \<Longrightarrow> 16 \<le> y" using four(1) b unfolding r by simp
    have x4: "x = 4 \<Longrightarrow> y < 16" using four(2) b unfolding r by simp
    have p0: "byte (char_of (240 + x)) = 240 + x" and p1: "byte (char_of (128 + y)) = 128 + y"
      and p2: "byte (char_of (128 + z)) = 128 + z" and p3: "byte (char_of (128 + u)) = 128 + u"
      using b x by simp_all
    have acc: "accept (char_of (240 + x)) (char_of (128 + y))"
      unfolding accept_def p0 p1 using b x x0 x4 by auto
    have c: "cont (char_of (128 + z))" "cont (char_of (128 + u))"
      unfolding cont_def p2 p3 using b by simp_all
    have "snd (DecodeRune (char_of (240 + x) # char_of (128 + y) # char_of (128 + z)
                 # char_of (128 + u) # s)) = 4"
      using acc c x by (subst DecodeRune_4) (simp_all add: p0)
    then show ?thesis
      unfolding EncodeRune_4[OF four] x_def[symmetric] y_def[symmetric] z_def[symmetric]
        u_def[symmetric]
      by auto
  qed
qed

section \<open>String literals: decoding inverts encoding\<close>

declare valid_utf8.simps(2) [simp del]
declare appendString.simps(2) [simp del]
declare unquoteBytes.simps(2) [simp del]
declare scan_string.simps(2) [simp del]
declare tokenize.simps(2) [simp del]

lemma valid_utf8_ascii: "byte c < 0x80 \<Longrightarrow> valid_utf8 (c # s) = valid_utf8 s"
  by (simp add: valid_utf8.simps DecodeRune_ascii RuneError_def)

lemma valid_utf8_EncodeRune: "valid_utf8 (EncodeRune r @ s) = valid_utf8 s"
proof -
  obtain e es where e: "EncodeRune r = e # es"
    by (cases "EncodeRune r") (auto simp: EncodeRune_def split: if_splits)
  from DecodeRune_EncodeRune[of r s] show ?thesis
    by (simp add: e valid_utf8.simps)
qed

lemma hex_cases:
  assumes "(d::nat) < 16"
  obtains "d = 0" | "d = 1" | "d = 2" | "d = 3" | "d = 4" | "d = 5" | "d = 6" | "d = 7"
    | "d = 8" | "d = 9" | "d = 10" | "d = 11" | "d = 12" | "d = 13" | "d = 14" | "d = 15"
proof -
  consider "d < 4" | "4 \<le> d \<and> d < 8" | "8 \<le> d \<and> d < 12" | "12 \<le> d \<and> d < 16"
    using assms by linarith
  then show thesis
  proof cases
    case 1
    then consider "d = 0" | "d = 1" | "d = 2" | "d = 3" by linarith
    then show thesis using that by cases blast+
  next
    case 2
    then consider "d = 4" | "d = 5" | "d = 6" | "d = 7" by linarith
    then show thesis using that by cases blast+
  next
    case 3
    then consider "d = 8" | "d = 9" | "d = 10" | "d = 11" by linarith
    then show thesis using that by cases blast+
  next
    case 4
    then consider "d = 12" | "d = 13" | "d = 14" | "d = 15" by linarith
    then show thesis using that by cases blast+
  qed
qed

lemma hexval_hex: "d < 16 \<Longrightarrow> hexval (hex d) = Some d"
  by (rule hex_cases[of d]) (simp_all add: hex_def hexval_def)

lemma is_hex_hex: "d < 16 \<Longrightarrow> is_hex (hex d)"
  by (simp add: is_hex_def hexval_hex)

lemma hex_digit:
  "d < 10 \<Longrightarrow> is_digit (hex d) \<and> digit_val (hex d) = d \<and> (hex d = CHR ''0'' \<longleftrightarrow> d = 0)"
  by (rule hex_cases[of d]) (simp_all add: hex_def is_digit_def digit_val_def)

lemma byte_bs_dq: "byte bs = 92" "byte dq = 34"
  by (simp_all add: bs_def dq_def)

lemma unquote_plain:
  "0x20 \<le> byte c \<Longrightarrow> byte c < 0x80 \<Longrightarrow> c \<noteq> bs \<Longrightarrow> c \<noteq> dq \<Longrightarrow>
   unquoteBytes (c # cs) = cons_opt [c] (unquoteBytes cs)"
  by (simp add: unquoteBytes.simps)

lemma unquote_multi:
  assumes "0x80 \<le> byte c"
  shows "unquoteBytes (c # cs) =
     cons_opt (EncodeRune (fst (DecodeRune (c # cs))))
       (unquoteBytes (drop (snd (DecodeRune (c # cs)) - 1) cs))"
proof -
  from assms have "c \<noteq> bs" "c \<noteq> dq" using byte_bs_dq by auto
  with assms show ?thesis by (simp add: unquoteBytes.simps)
qed

lemma unquote_esc:
  "unquoteBytes (bs # dq # es) = cons_opt [dq] (unquoteBytes es)"
  "unquoteBytes (bs # bs # es) = cons_opt [bs] (unquoteBytes es)"
  "unquoteBytes (bs # CHR ''b'' # es) = cons_opt [CHR 0x08] (unquoteBytes es)"
  "unquoteBytes (bs # CHR ''f'' # es) = cons_opt [CHR 0x0C] (unquoteBytes es)"
  "unquoteBytes (bs # CHR ''n'' # es) = cons_opt [CHR 0x0A] (unquoteBytes es)"
  "unquoteBytes (bs # CHR ''r'' # es) = cons_opt [CHR 0x0D] (unquoteBytes es)"
  "unquoteBytes (bs # CHR ''t'' # es) = cons_opt [CHR 0x09] (unquoteBytes es)"
  by (simp_all add: unquoteBytes.simps bs_def dq_def)

lemma unquote_u:
  "getu4 (bs # CHR ''u'' # es) = Some rr \<Longrightarrow> \<not> IsSurrogate rr \<Longrightarrow>
   unquoteBytes (bs # CHR ''u'' # es) = cons_opt (EncodeRune rr) (unquoteBytes (drop 4 es))"
  by (simp add: unquoteBytes.simps bs_def dq_def)

lemma getu4_hex:
  "a < 16 \<Longrightarrow> b < 16 \<Longrightarrow> c < 16 \<Longrightarrow> d < 16 \<Longrightarrow>
   getu4 (bs # CHR ''u'' # hex a # hex b # hex c # hex d # rest)
     = Some (((a * 16 + b) * 16 + c) * 16 + d)"
  by (simp add: hexval_hex)

lemma hex_literals:
  "CHR ''0'' = hex 0" "CHR ''2'' = hex 2" "CHR ''f'' = hex 15" "CHR ''d'' = hex 13"
  by (simp_all add: hex_def)

lemma htmlSafe_plain:
  "htmlSafe c \<Longrightarrow> 0x20 \<le> byte c \<and> byte c < 0x80 \<and> c \<noteq> bs \<and> c \<noteq> dq"
  by (simp add: htmlSafe_def)

lemma unquote_escape:
  assumes "byte c < 0x80" "\<not> htmlSafe c"
  shows "unquoteBytes (escape c @ rest) = cons_opt [c] (unquoteBytes rest)"
proof -
  consider (q) "c = bs \<or> c = dq" | (b) "c = CHR 0x08" | (f) "c = CHR 0x0C" | (n) "c = CHR 0x0A"
    | (r) "c = CHR 0x0D" | (t) "c = CHR 0x09"
    | (u) "c \<noteq> bs" "c \<noteq> dq" "c \<noteq> CHR 0x08" "c \<noteq> CHR 0x0C" "c \<noteq> CHR 0x0A" "c \<noteq> CHR 0x0D"
        "c \<noteq> CHR 0x09"
    by blast
  then show ?thesis
  proof cases
    case q
    then show ?thesis by (auto simp: escape_def unquote_esc)
  next
    case b
    then show ?thesis by (simp add: escape_def bs_def dq_def unquoteBytes.simps)
  next
    case f
    then show ?thesis by (simp add: escape_def bs_def dq_def unquoteBytes.simps)
  next
    case n
    then show ?thesis by (simp add: escape_def bs_def dq_def unquoteBytes.simps)
  next
    case r
    then show ?thesis by (simp add: escape_def bs_def dq_def unquoteBytes.simps)
  next
    case t
    then show ?thesis by (simp add: escape_def bs_def dq_def unquoteBytes.simps)
  next
    case u
    have lt: "byte c div 16 < 16" "byte c mod 16 < 16" using assms(1) by simp_all
    have esc: "escape c = [bs, CHR ''u'', hex 0, hex 0, hex (byte c div 16), hex (byte c mod 16)]"
      using u by (simp add: escape_def hex_def)
    have g: "getu4 (bs # CHR ''u'' # hex 0 # hex 0 # hex (byte c div 16) # hex (byte c mod 16) # rest)
               = Some (byte c)"
      by (subst getu4_hex) (use lt in simp_all)
    have ns: "\<not> IsSurrogate (byte c)" using assms(1) by (simp add: IsSurrogate_def)
    have enc: "EncodeRune (byte c) = [c]" using assms(1) by (simp add: EncodeRune_1)
    show ?thesis
      unfolding esc by (simp add: unquote_u[OF g ns] enc)
  qed
qed

lemma unquoteBytes_appendString:
  "valid_utf8 s \<Longrightarrow> unquoteBytes (appendString s) = Some s"
proof (induction s rule: appendString.induct)
  case 1
  then show ?case by simp
next
  case (2 c cs)
  show ?case
  proof (cases "byte c < 0x80")
    case True
    from "2.prems" have v: "valid_utf8 cs" unfolding valid_utf8_ascii[OF True] .
    note ih = "2.IH"(1)[OF True v]
    show ?thesis
    proof (cases "htmlSafe c")
      case True
      with \<open>byte c < 0x80\<close> ih show ?thesis
        using htmlSafe_plain[OF True] by (simp add: appendString.simps unquote_plain cons_opt_def)
    next
      case False
      with \<open>byte c < 0x80\<close> ih show ?thesis
        by (simp add: appendString.simps unquote_escape cons_opt_def)
    qed
  next
    case hi: False
    obtain r n where d: "DecodeRune (c # cs) = (r, n)" by (cases "DecodeRune (c # cs)")
    from "2.prems" d have ok: "(r, n) \<noteq> (RuneError, 1)" and v: "valid_utf8 (drop (n - 1) cs)"
      by (simp_all add: valid_utf8.simps)
    from EncodeRune_DecodeRune[OF d ok] have
      enc: "EncodeRune r = take n (c # cs)" and n: "1 \<le> n" "n \<le> length (c # cs)"
      by simp_all
    have tk: "take n (c # cs) = c # take (n - 1) cs" using n by (cases n) simp_all
    have len: "length (take (n - 1) cs) = n - 1" using n by simp
    show ?thesis
    proof (cases "r = 0x2028 \<or> r = 0x2029")
      case True
      have ih: "unquoteBytes (appendString (drop (n - 1) cs)) = Some (drop (n - 1) cs)"
        using "2.IH"(3)[OF hi] ok True d v by simp
      have hx: "hex (r mod 16) = hex 8 \<or> hex (r mod 16) = hex 9" using True by auto
      have g: "getu4 (bs # CHR ''u'' # hex 2 # hex 0 # hex 2 # hex (r mod 16) # rest) = Some r" for rest
        using True by (subst getu4_hex) auto
      have ns: "\<not> IsSurrogate r" using True by (auto simp: IsSurrogate_def)
      have app: "appendString (c # cs) =
            [bs, CHR ''u'', hex 2, hex 0, hex 2, hex (r mod 16)] @ appendString (drop (n - 1) cs)"
        using hi ok True d by (simp add: appendString.simps hex_def)
      show ?thesis
        unfolding app using ih
        by (simp add: unquote_u[OF g ns] cons_opt_def enc tk)
    next
      case False
      have ih: "unquoteBytes (appendString (drop (n - 1) cs)) = Some (drop (n - 1) cs)"
        using "2.IH"(4)[OF hi] ok False d v by simp
      have app: "appendString (c # cs) = c # take (n - 1) cs @ appendString (drop (n - 1) cs)"
        using hi ok False d by (simp add: appendString.simps)
      have dec: "DecodeRune (c # take (n - 1) cs @ appendString (drop (n - 1) cs)) = (r, n)"
        using DecodeRune_prefix[OF d ok, of "appendString (drop (n - 1) cs)"] by (simp add: tk)
      have c80: "0x80 \<le> byte c" using hi by simp
      have dr: "drop (n - 1) (take (n - 1) cs @ appendString (drop (n - 1) cs))
                  = appendString (drop (n - 1) cs)"
        using len by (metis append_eq_conv_conj)
      show ?thesis
        unfolding app unquote_multi[OF c80] dec
        by (simp only: fst_conv snd_conv dr ih cons_opt_def enc tk option.map)
           simp
    qed
  qed
qed

section \<open>Decoded strings are well-formed UTF-8\<close>

lemma cons_opt_Some: "cons_opt pre x = Some s \<Longrightarrow> \<exists>s'. x = Some s' \<and> s = pre @ s'"
  by (cases x) (auto simp: cons_opt_def)

lemma unquote_esc_more:
  "unquoteBytes (bs # CHR ''/'' # es) = cons_opt [CHR ''/''] (unquoteBytes es)"
  "unquoteBytes (bs # CHR 0x27 # es) = cons_opt [CHR 0x27] (unquoteBytes es)"
  by (simp_all add: unquoteBytes.simps bs_def dq_def)

lemma unquote_u_all:
  "unquoteBytes (bs # CHR ''u'' # es) =
     (case getu4 (bs # CHR ''u'' # es) of
        None \<Rightarrow> None
      | Some rr \<Rightarrow>
          if IsSurrogate rr then
            (if utf16_DecodeRune rr (getu4 (drop 4 es)) \<noteq> RuneError
             then cons_opt (EncodeRune (utf16_DecodeRune rr (getu4 (drop 4 es))))
                    (unquoteBytes (drop 10 es))
             else cons_opt (EncodeRune RuneError) (unquoteBytes (drop 4 es)))
          else cons_opt (EncodeRune rr) (unquoteBytes (drop 4 es)))"
  by (simp add: unquoteBytes.simps bs_def dq_def)

lemma unquote_esc_bad:
  "e \<noteq> dq \<Longrightarrow> e \<noteq> bs \<Longrightarrow> e \<noteq> CHR ''/'' \<Longrightarrow> e \<noteq> CHR 0x27 \<Longrightarrow> e \<noteq> CHR ''b'' \<Longrightarrow> e \<noteq> CHR ''f'' \<Longrightarrow>
   e \<noteq> CHR ''n'' \<Longrightarrow> e \<noteq> CHR ''r'' \<Longrightarrow> e \<noteq> CHR ''t'' \<Longrightarrow> e \<noteq> CHR ''u'' \<Longrightarrow>
   unquoteBytes (bs # e # es) = None"
  by (simp add: unquoteBytes.simps)

lemma unquote_bad:
  "unquoteBytes [bs] = None"
  "c \<noteq> bs \<Longrightarrow> c = dq \<or> byte c < 0x20 \<Longrightarrow> unquoteBytes (c # cs) = None"
  by (simp_all add: unquoteBytes.simps)

lemma unquoteBytes_Cons_cases:
  assumes "unquoteBytes (c # cs) = Some s"
  obtains pre rest s' where "unquoteBytes rest = Some s'" "s = pre @ s'"
    "length rest \<le> length cs" "\<And>t. valid_utf8 (pre @ t) = valid_utf8 t"
proof -
  have fin: thesis if "cons_opt pre (unquoteBytes rest) = Some s" "length rest \<le> length cs"
    "\<And>t. valid_utf8 (pre @ t) = valid_utf8 t" for pre rest
    using cons_opt_Some[OF that(1)] that(2,3) \<open>\<And>pre rest s'. \<lbrakk>unquoteBytes rest = Some s'; s = pre @ s';
      length rest \<le> length cs; \<And>t. valid_utf8 (pre @ t) = valid_utf8 t\<rbrakk> \<Longrightarrow> thesis\<close>
    by blast
  have asc: "valid_utf8 (a # t) = valid_utf8 t" if "byte a < 0x80" for a t
    using that by (simp add: valid_utf8_ascii)
  show thesis
  proof (cases "c = bs")
    case False
    have c: "c \<noteq> dq" "0x20 \<le> byte c"
    proof -
      show "c \<noteq> dq" using assms unquote_bad(2)[OF False, of cs] by auto
      show "0x20 \<le> byte c"
      proof (rule ccontr)
        assume "\<not> 0x20 \<le> byte c"
        then have "byte c < 0x20" by simp
        with unquote_bad(2)[OF False, of cs] assms show False by simp
      qed
    qed
    show ?thesis
    proof (cases "byte c < 0x80")
      case True
      from assms have "cons_opt [c] (unquoteBytes cs) = Some s"
        by (simp only: unquote_plain[OF c(2) True False c(1)])
      then show ?thesis by (rule fin) (simp_all add: asc[OF True])
    next
      case hi: False
      then have c80: "0x80 \<le> byte c" by simp
      from assms have "cons_opt (EncodeRune (fst (DecodeRune (c # cs))))
             (unquoteBytes (drop (snd (DecodeRune (c # cs)) - 1) cs)) = Some s"
        by (simp only: unquote_multi[OF c80])
      then show ?thesis by (rule fin) (simp_all add: valid_utf8_EncodeRune)
    qed
  next
    case True
    with assms obtain e es where cs: "cs = e # es"
      by (cases cs) (auto simp: unquote_bad)
    note a = assms[unfolded True cs]
    consider (dq) "e = dq" | (bs) "e = bs" | (sl) "e = CHR ''/''" | (ap) "e = CHR 0x27"
      | (b) "e = CHR ''b''" | (f) "e = CHR ''f''" | (n) "e = CHR ''n''" | (r) "e = CHR ''r''"
      | (t) "e = CHR ''t''" | (u) "e = CHR ''u''"
      | (other) "e \<noteq> dq" "e \<noteq> bs" "e \<noteq> CHR ''/''" "e \<noteq> CHR 0x27" "e \<noteq> CHR ''b''" "e \<noteq> CHR ''f''"
          "e \<noteq> CHR ''n''" "e \<noteq> CHR ''r''" "e \<noteq> CHR ''t''" "e \<noteq> CHR ''u''"
      by blast
    then show ?thesis
    proof cases
      case dq
      from a have "cons_opt [dq] (unquoteBytes es) = Some s" by (simp only: dq unquote_esc)
      then show ?thesis by (rule fin) (simp_all add: cs asc byte_bs_dq)
    next
      case bs
      from a have "cons_opt [bs] (unquoteBytes es) = Some s" by (simp only: bs unquote_esc)
      then show ?thesis by (rule fin) (simp_all add: cs asc byte_bs_dq)
    next
      case sl
      from a have "cons_opt [CHR ''/''] (unquoteBytes es) = Some s"
        by (simp only: sl unquote_esc_more)
      then show ?thesis by (rule fin) (simp_all add: cs asc)
    next
      case ap
      from a have "cons_opt [CHR 0x27] (unquoteBytes es) = Some s"
        by (simp only: ap unquote_esc_more)
      then show ?thesis by (rule fin) (simp_all add: cs asc)
    next
      case b
      from a have "cons_opt [CHR 0x08] (unquoteBytes es) = Some s" by (simp only: b unquote_esc)
      then show ?thesis by (rule fin) (simp_all add: cs asc)
    next
      case f
      from a have "cons_opt [CHR 0x0C] (unquoteBytes es) = Some s" by (simp only: f unquote_esc)
      then show ?thesis by (rule fin) (simp_all add: cs asc)
    next
      case n
      from a have "cons_opt [CHR 0x0A] (unquoteBytes es) = Some s" by (simp only: n unquote_esc)
      then show ?thesis by (rule fin) (simp_all add: cs asc)
    next
      case r
      from a have "cons_opt [CHR 0x0D] (unquoteBytes es) = Some s" by (simp only: r unquote_esc)
      then show ?thesis by (rule fin) (simp_all add: cs asc)
    next
      case t
      from a have "cons_opt [CHR 0x09] (unquoteBytes es) = Some s" by (simp only: t unquote_esc)
      then show ?thesis by (rule fin) (simp_all add: cs asc)
    next
      case u
      note a' = a[unfolded u unquote_u_all]
      then obtain rr where g: "getu4 (bs # CHR ''u'' # es) = Some rr"
        by (cases "getu4 (bs # CHR ''u'' # es)") auto
      note a'' = a'[unfolded g option.case]
      show ?thesis
      proof (cases "IsSurrogate rr")
        case False
        with a'' have "cons_opt (EncodeRune rr) (unquoteBytes (drop 4 es)) = Some s" by simp
        then show ?thesis by (rule fin) (simp_all add: cs valid_utf8_EncodeRune)
      next
        case sur: True
        show ?thesis
        proof (cases "utf16_DecodeRune rr (getu4 (drop 4 es)) \<noteq> RuneError")
          case True
          with a'' sur have "cons_opt (EncodeRune (utf16_DecodeRune rr (getu4 (drop 4 es))))
                    (unquoteBytes (drop 10 es)) = Some s" by simp
          then show ?thesis by (rule fin) (simp_all add: cs valid_utf8_EncodeRune)
        next
          case False
          with a'' sur have "cons_opt (EncodeRune RuneError) (unquoteBytes (drop 4 es)) = Some s"
            by simp
          then show ?thesis by (rule fin) (simp_all add: cs valid_utf8_EncodeRune)
        qed
      qed
    next
      case other
      from a show ?thesis by (simp add: unquote_esc_bad[OF other])
    qed
  qed
qed

lemma valid_utf8_unquoteBytes: "unquoteBytes raw = Some s \<Longrightarrow> valid_utf8 s"
proof (induction "length raw" arbitrary: raw s rule: less_induct)
  case less
  show ?case
  proof (cases raw)
    case Nil
    with less.prems show ?thesis by simp
  next
    case (Cons c cs)
    show ?thesis
    proof (rule unquoteBytes_Cons_cases[OF less.prems[unfolded Cons]])
      fix pre rest s'
      assume st: "unquoteBytes rest = Some s'" "s = pre @ s'" "length rest \<le> length cs"
        "\<And>t. valid_utf8 (pre @ t) = valid_utf8 t"
      from st(3) Cons have "length rest < length raw" by simp
      from less.hyps[OF this st(1)] st(2,4) show "valid_utf8 s" by simp
    qed
  qed
qed

section \<open>The scanner reads back what the encoder writes\<close>

lemma scanned_Nil: "scanned [] r = r"
  by (cases r) (auto simp: scanned_def)

lemma scanned_scanned: "scanned pre (scanned pre' r) = scanned (pre @ pre') r"
  by (cases r) (auto simp: scanned_def)

lemma scan_plain:
  "c \<noteq> dq \<Longrightarrow> c \<noteq> bs \<Longrightarrow> 0x20 \<le> byte c \<Longrightarrow> scan_string (c # cs) = scanned [c] (scan_string cs)"
  by (simp add: scan_string.simps)

lemma scan_hi:
  "\<forall>c\<in>set pre. 0x80 \<le> byte c \<Longrightarrow> scan_string (pre @ X) = scanned pre (scan_string X)"
proof (induction pre)
  case Nil
  then show ?case by (simp add: scanned_Nil)
next
  case (Cons c pre)
  then have c: "0x80 \<le> byte c" by simp
  then have "c \<noteq> dq" "c \<noteq> bs" "0x20 \<le> byte c" using byte_bs_dq by auto
  then have "scan_string ((c # pre) @ X) = scanned [c] (scan_string (pre @ X))"
    by (simp add: scan_plain)
  with Cons show ?case by (simp add: scanned_scanned)
qed

lemma scan_u:
  "is_hex h1 \<Longrightarrow> is_hex h2 \<Longrightarrow> is_hex h3 \<Longrightarrow> is_hex h4 \<Longrightarrow>
   scan_string (bs # CHR ''u'' # h1 # h2 # h3 # h4 # X)
     = scanned [bs, CHR ''u'', h1, h2, h3, h4] (scan_string X)"
  by (simp add: scan_string.simps bs_def dq_def)

lemma scan_esc:
  "e = CHR ''b'' \<or> e = CHR ''f'' \<or> e = CHR ''n'' \<or> e = CHR ''r'' \<or> e = CHR ''t''
      \<or> e = bs \<or> e = CHR ''/'' \<or> e = dq \<Longrightarrow>
   scan_string (bs # e # X) = scanned [bs, e] (scan_string X)"
  by (simp add: scan_string.simps bs_def dq_def)

lemma scan_escape:
  "scan_string (escape c @ X) = scanned (escape c) (scan_string X)"
proof -
  have d: "byte c div 16 < 16" "byte c mod 16 < 16"
    using nat_of_char_less_256[of c] by (simp_all add: less_mult_imp_div_less)
  have u: "scan_string ([bs, CHR ''u'', CHR ''0'', CHR ''0'', hex (byte c div 16),
                          hex (byte c mod 16)] @ X)
      = scanned [bs, CHR ''u'', CHR ''0'', CHR ''0'', hex (byte c div 16), hex (byte c mod 16)]
          (scan_string X)"
    using is_hex_hex[OF d(1)] is_hex_hex[OF d(2)] is_hex_hex[of 0]
    by (simp add: scan_u hex_literals(1)[symmetric])
  show ?thesis
    unfolding escape_def using u by (simp add: scan_esc)
qed

lemma scan_string_appendString:
  "scan_string (appendString s @ X) = scanned (appendString s) (scan_string X)"
proof (induction s rule: appendString.induct)
  case 1
  then show ?case by (simp add: scanned_Nil)
next
  case (2 c cs)
  show ?case
  proof (cases "byte c < 0x80")
    case True
    note ih = "2.IH"(1)[OF True]
    show ?thesis
    proof (cases "htmlSafe c")
      case True
      with \<open>byte c < 0x80\<close> ih htmlSafe_plain[OF True] show ?thesis
        by (simp add: appendString.simps scan_plain scanned_scanned)
    next
      case False
      with \<open>byte c < 0x80\<close> ih show ?thesis
        by (simp add: appendString.simps scan_escape scanned_scanned)
    qed
  next
    case hi: False
    obtain r n where d: "DecodeRune (c # cs) = (r, n)" by (cases "DecodeRune (c # cs)")
    show ?thesis
    proof (cases "(r, n) = (RuneError, 1)")
      case True
      have app: "appendString (c # cs) = [bs, CHR ''u'', hex 15, hex 15, hex 15, hex 13] @ appendString cs"
        using hi True d by (simp add: appendString.simps hex_def)
      from "2.IH"(2)[OF hi] True d show ?thesis
        unfolding app by (simp add: scan_u is_hex_hex scanned_scanned)
    next
      case ok: False
      from EncodeRune_DecodeRune[OF d ok] have
        n: "1 \<le> n" "n \<le> length (c # cs)" and
        hi80: "1 < n \<longrightarrow> (\<forall>c\<in>set (take n (c # cs)). 0x80 \<le> byte c)"
        by simp_all
      have tk: "take n (c # cs) = c # take (n - 1) cs" using n by (cases n) simp_all
      show ?thesis
      proof (cases "r = 0x2028 \<or> r = 0x2029")
        case True
        have app: "appendString (c # cs) =
            [bs, CHR ''u'', hex 2, hex 0, hex 2, hex (r mod 16)] @ appendString (drop (n - 1) cs)"
          using hi ok True d by (simp add: appendString.simps hex_def)
        have "r mod 16 < 16" by simp
        with "2.IH"(3)[OF hi] ok True d show ?thesis
          unfolding app by (simp add: scan_u is_hex_hex scanned_scanned)
      next
        case False
        have app: "appendString (c # cs) = take n (c # cs) @ appendString (drop (n - 1) cs)"
          using hi ok False d by (simp add: appendString.simps tk)
        have "0x80 \<le> byte c" using hi by simp
        then have all: "\<forall>c\<in>set (take n (c # cs)). 0x80 \<le> byte c"
          using hi80 n by (cases "1 < n") (auto simp: tk)
        from "2.IH"(4)[OF hi] ok False d show ?thesis
          unfolding app by (simp add: scan_hi[OF all] scanned_scanned)
      qed
    qed
  qed
qed

lemma scan_string_quote:
  "scan_string (appendString s @ dq # rest) = Some (appendString s, rest)"
  by (simp add: scan_string_appendString scan_string.simps scanned_def)

lemma tokenize_dq:
  "tokenize (dq # cs) =
     (case scan_string cs of
        None \<Rightarrow> None
      | Some (lit, rest) \<Rightarrow> tok (TString lit) (tokenize rest))"
  by (simp add: tokenize.simps isSpace_def dq_def)

lemma tokenize_quote:
  "tokenize (quote s @ rest) = tok (TString (appendString s)) (tokenize rest)"
  by (simp add: quote_def tokenize_dq scan_string_quote)

section \<open>Integers: parsing inverts formatting\<close>

lemma formatBits_facts:
  "list_all is_digit (formatBits n) \<and> formatBits n \<noteq> []
   \<and> foldl (\<lambda>n c. n * 10 + digit_val c) 0 (formatBits n) = n
   \<and> (n \<noteq> 0 \<longrightarrow> hd (formatBits n) \<noteq> CHR ''0'')"
proof (induction n rule: formatBits.induct)
  case (1 u)
  show ?case
  proof (cases "u < 10")
    case True
    then have "formatBits u = [hex u]" by (simp add: formatBits.simps)
    with hex_digit[OF True] show ?thesis by simp
  next
    case False
    then have f: "formatBits u = formatBits (u div 10) @ [hex (u mod 10)]"
      by (subst formatBits.simps) simp
    have m: "u mod 10 < 10" by simp
    have d: "u div 10 \<noteq> 0" using False by simp
    from "1.IH"[OF False] hex_digit[OF m] d show ?thesis
      unfolding f by simp
  qed
qed

lemma formatBits_0: "formatBits 0 = ''0''"
  by (simp add: formatBits.simps hex_def)

lemma ParseUint_formatBits: "ParseUint (formatBits n) = Some n"
  using formatBits_facts[of n] by (simp add: ParseUint_def)

lemma is_digit_not_sign: "is_digit c \<Longrightarrow> c \<noteq> CHR ''-'' \<and> c \<noteq> CHR ''+''"
  by (auto simp: is_digit_def)

lemma ParseInt_FormatInt:
  assumes "- (2 ^ 63) \<le> i" "i < 2 ^ 63"
  shows "ParseInt (FormatInt i) = Some i"
proof (cases "i < 0")
  case True
  have "nat (- i) \<le> 2 ^ 63" using assms(1) by (simp add: nat_le_iff)
  with True show ?thesis
    by (simp add: FormatInt_def ParseInt_def ParseUint_formatBits)
next
  case False
  obtain c cs where f: "formatBits (nat i) = c # cs" "is_digit c"
    using formatBits_facts[of "nat i"] by (cases "formatBits (nat i)") auto
  have u: "ParseUint (c # cs) = Some (nat i)" using ParseUint_formatBits[of "nat i"] f by simp
  have "\<not> 2 ^ 63 \<le> nat i" using assms(2) False by (simp add: nat_less_iff)
  with False is_digit_not_sign[OF f(2)] u show ?thesis
    by (simp add: FormatInt_def ParseInt_def f(1))
qed

lemma scan_int_formatBits:
  assumes "\<not> is_digit c"
  shows "scan_int (formatBits n @ c # rest) = Some (formatBits n, c # rest)"
proof -
  obtain d ds where f: "formatBits n = d # ds" "is_digit d" "list_all is_digit ds"
    using formatBits_facts[of n] by (cases "formatBits n") auto
  show ?thesis
  proof (cases "d = CHR ''0''")
    case True
    with f(1) formatBits_facts[of n] have "n = 0" by auto
    then show ?thesis by (simp add: formatBits_0 scan_int_def)
  next
    case False
    have "takeWhile is_digit (ds @ c # rest) = ds" "dropWhile is_digit (ds @ c # rest) = c # rest"
      using f(3) assms by (simp_all add: list_all_iff takeWhile_append2 dropWhile_append2)
    with False f show ?thesis by (simp add: scan_int_def)
  qed
qed

lemma scan_number_FormatInt:
  assumes "\<not> is_digit c" "c \<noteq> CHR ''.''" "c \<noteq> CHR ''e''" "c \<noteq> CHR ''E''"
  shows "scan_number (FormatInt i @ c # rest) = Some (FormatInt i, c # rest)"
proof -
  have tail: "scan_frac (c # rest) = Some ([], c # rest)" "scan_exp (c # rest) = Some ([], c # rest)"
    using assms by (simp_all add: scan_frac_def scan_exp_def)
  show ?thesis
  proof (cases "i < 0")
    case True
    then show ?thesis
      by (simp add: FormatInt_def scan_number_def scan_int_formatBits[OF assms(1)] tail)
  next
    case False
    obtain d ds where f: "formatBits (nat i) = d # ds" "is_digit d"
      using formatBits_facts[of "nat i"] by (cases "formatBits (nat i)") auto
    have "scan_int (d # ds @ c # rest) = Some (d # ds, c # rest)"
      using scan_int_formatBits[OF assms(1), of "nat i" rest] f by simp
    with False is_digit_not_sign[OF f(2)] show ?thesis
      by (simp add: FormatInt_def scan_number_def f(1) tail)
  qed
qed

lemma FormatInt_Cons: "\<exists>x xs. FormatInt i = x # xs \<and> (x = CHR ''-'' \<or> is_digit x)"
  using formatBits_facts[of "nat i"]
  by (cases "formatBits (nat i)") (auto simp: FormatInt_def)

lemma tokenize_number_start:
  assumes "x = CHR ''-'' \<or> is_digit x"
  shows "tokenize (x # xs) =
     (case scan_number (x # xs) of
        None \<Rightarrow> None
      | Some (lit, rest) \<Rightarrow> tok (TNumber lit) (tokenize rest))"
proof -
  from assms have "\<not> isSpace x" "x \<noteq> CHR ''{''" "x \<noteq> CHR ''}''" "x \<noteq> CHR ''[''" "x \<noteq> CHR '']''"
    "x \<noteq> CHR '':''" "x \<noteq> CHR '',''" "x \<noteq> dq"
    by (auto simp: is_digit_def isSpace_def dq_def)
  with assms show ?thesis by (simp add: tokenize.simps)
qed

lemma tokenize_FormatInt:
  "tokenize (FormatInt i @ CHR '','' # rest)
     = tok (TNumber (FormatInt i)) (tokenize (CHR '','' # rest))"
proof -
  obtain x xs where f: "FormatInt i = x # xs" "x = CHR ''-'' \<or> is_digit x"
    using FormatInt_Cons by blast
  have n: "scan_number (FormatInt i @ CHR '','' # rest) = Some (FormatInt i, CHR '','' # rest)"
    by (rule scan_number_FormatInt) (simp_all add: is_digit_def)
  show ?thesis
    using tokenize_number_start[OF f(2), of "xs @ CHR '','' # rest"] n
    by (simp add: f(1))
qed

section \<open>Unmarshal inverts Marshal on well-formed records\<close>

lemma json_Marshal_marshalled: "json_Marshal r = Inr (marshalled r)"
  by (simp add: json_Marshal_def marshalled_def)

lemma marshalled_text:
  "marshalled r =
     ''{'' @ quote ''access_token'' @ '':'' @ quote (AccessToken r)
     @ '','' @ quote ''refresh_token'' @ '':'' @ quote (RefreshToken r)
     @ '','' @ quote ''token_type'' @ '':'' @ quote (TokenType r)
     @ '','' @ quote ''expires_in'' @ '':'' @ FormatInt (ExpiresIn r)
     @ '','' @ quote ''id_token'' @ '':'' @ quote (IdToken r)
     @ ''}''"
  by (simp add: json_Marshal_def marshalled_def)

lemma tokenize_punct:
  "tokenize (CHR ''{'' # cs) = tok LBrace (tokenize cs)"
  "tokenize (CHR ''}'' # cs) = tok RBrace (tokenize cs)"
  "tokenize (CHR '':'' # cs) = tok Colon (tokenize cs)"
  "tokenize (CHR '','' # cs) = tok Comma (tokenize cs)"
  by (simp_all add: tokenize.simps isSpace_def)

lemma appendString_names:
  "appendString ''access_token'' = ''access_token''"
  "appendString ''refresh_token'' = ''refresh_token''"
  "appendString ''token_type'' = ''token_type''"
  "appendString ''expires_in'' = ''expires_in''"
  "appendString ''id_token'' = ''id_token''"
  by (simp_all add: appendString.simps htmlSafe_def dq_def bs_def)

lemma unquoteBytes_names:
  "unquoteBytes ''access_token'' = Some ''access_token''"
  "unquoteBytes ''refresh_token'' = Some ''refresh_token''"
  "unquoteBytes ''token_type'' = Some ''token_type''"
  "unquoteBytes ''expires_in'' = Some ''expires_in''"
  "unquoteBytes ''id_token'' = Some ''id_token''"
  by (simp_all add: unquoteBytes.simps cons_opt_def dq_def bs_def)

lemma tokenize_marshalled:
  "tokenize (marshalled r) =
     Some [LBrace, TString ''access_token'', Colon, TString (appendString (AccessToken r)), Comma,
           TString ''refresh_token'', Colon, TString (appendString (RefreshToken r)), Comma,
           TString ''token_type'', Colon, TString (appendString (TokenType r)), Comma,
           TString ''expires_in'', Colon, TNumber (FormatInt (ExpiresIn r)), Comma,
           TString ''id_token'', Colon, TString (appendString (IdToken r)), RBrace]"
  by (simp add: marshalled_text tokenize_punct tokenize_quote tokenize_FormatInt appendString_names
      tok_def)

lemma parse_marshalled:
  assumes "valid_utf8 (AccessToken r)" "valid_utf8 (RefreshToken r)" "valid_utf8 (TokenType r)"
    "valid_utf8 (IdToken r)"
  shows "parse (marshalled r) =
     Some (JObject [(''access_token'', JString (AccessToken r)),
                    (''refresh_token'', JString (RefreshToken r)),
                    (''token_type'', JString (TokenType r)),
                    (''expires_in'', JNumber (FormatInt (ExpiresIn r))),
                    (''id_token'', JString (IdToken r))])"
  using assms
  by (simp add: parse_def tokenize_marshalled step_def beginValue_def beginString_def endValue_def
      pushParseState_def maxNestingDepth_def unquoteBytes_names unquoteBytes_appendString)

lemma findField_names:
  "findField ''access_token'' = Some ''access_token''"
  "findField ''refresh_token'' = Some ''refresh_token''"
  "findField ''token_type'' = Some ''token_type''"
  "findField ''expires_in'' = Some ''expires_in''"
  "findField ''id_token'' = Some ''id_token''"
  by (simp_all add: findField_def structFields_def)

lemma json_Unmarshal_marshalled:
  assumes "wellFormed r"
  shows "json_Unmarshal (marshalled r) = Inr r"
proof -
  from assms have v: "valid_utf8 (AccessToken r)" "valid_utf8 (RefreshToken r)"
    "valid_utf8 (TokenType r)" "valid_utf8 (IdToken r)"
    and i: "ParseInt (FormatInt (ExpiresIn r)) = Some (ExpiresIn r)"
    by (simp_all add: wellFormed_def ParseInt_FormatInt)
  show ?thesis
    by (simp add: json_Unmarshal_def parse_marshalled[OF v] findField_names storeField_def
        storeString_def storeInt_def i zeroTokenResponse_def)
qed

section \<open>Unmarshal yields well-formed records\<close>

lemma endValue_ok:
  assumes "endValue v ps = Some st" "list_all frame_ok ps" "shallow_ok v" "top_ok v"
  shows "state_ok st"
  using assms
  by (auto simp: endValue_def state_ok_def frame_ok_def members_ok_def
      split: list.splits parseState.splits option.splits)

lemma beginValue_ok:
  assumes "beginValue t ps = Some st" "list_all frame_ok ps"
  shows "state_ok st"
proof (cases t)
  case (TString lit)
  with assms obtain s where s: "unquoteBytes lit = Some s" "endValue (JString s) ps = Some st"
    by (auto simp: beginValue_def split: option.splits)
  from valid_utf8_unquoteBytes[OF s(1)] have "shallow_ok (JString s)" "top_ok (JString s)"
    by (simp_all add: shallow_ok_def top_ok_def)
  with endValue_ok[OF s(2) assms(2)] show ?thesis by simp
next
  case LBrace
  with assms show ?thesis
    by (auto simp: beginValue_def pushParseState_def state_ok_def frame_ok_def members_ok_def
        split: if_splits)
next
  case LBracket
  with assms show ?thesis
    by (auto simp: beginValue_def pushParseState_def state_ok_def frame_ok_def split: if_splits)
next
  case (TNumber lit)
  with assms have "endValue (JNumber lit) ps = Some st" by (simp add: beginValue_def)
  from endValue_ok[OF this assms(2)] show ?thesis by (simp add: shallow_ok_def top_ok_def)
next
  case TTrue
  with assms have "endValue (JBool True) ps = Some st" by (simp add: beginValue_def)
  from endValue_ok[OF this assms(2)] show ?thesis by (simp add: shallow_ok_def top_ok_def)
next
  case TFalse
  with assms have "endValue (JBool False) ps = Some st" by (simp add: beginValue_def)
  from endValue_ok[OF this assms(2)] show ?thesis by (simp add: shallow_ok_def top_ok_def)
next
  case TNull
  with assms have "endValue JNull ps = Some st" by (simp add: beginValue_def)
  from endValue_ok[OF this assms(2)] show ?thesis by (simp add: shallow_ok_def top_ok_def)
qed (use assms in \<open>simp_all add: beginValue_def\<close>)

lemma beginString_ok:
  assumes "beginString t ps = Some st" "list_all frame_ok ps"
  shows "state_ok st"
  using assms
  by (auto simp: beginString_def state_ok_def frame_ok_def
      split: token.splits list.splits parseState.splits option.splits)

lemma close_ok:
  assumes "list_all frame_ok (p # ps)"
  shows "p = parseObject ms k \<Longrightarrow> endValue (JObject ms) ps = Some st \<Longrightarrow> state_ok st"
    and "p = parseArray es \<Longrightarrow> endValue (JArray es) ps = Some st \<Longrightarrow> state_ok st"
proof -
  assume p: "p = parseObject ms k" and e: "endValue (JObject ms) ps = Some st"
  from assms p have "list_all frame_ok ps" "top_ok (JObject ms)" "shallow_ok (JObject ms)"
    by (simp_all add: frame_ok_def top_ok_def shallow_ok_def)
  with endValue_ok[OF e] show "state_ok st" by simp
next
  assume p: "p = parseArray es" and e: "endValue (JArray es) ps = Some st"
  from assms p have "list_all frame_ok ps" "top_ok (JArray es)" "shallow_ok (JArray es)"
    by (simp_all add: frame_ok_def top_ok_def shallow_ok_def)
  with endValue_ok[OF e] show "state_ok st" by simp
qed

lemma step_ok:
  assumes "step st t = Some st'" "state_ok st"
  shows "state_ok st'"
proof -
  obtain s ps where st: "st = (s, ps)" by (cases st)
  from assms(2) st have ps: "list_all frame_ok ps" by (simp add: state_ok_def)
  show ?thesis
  proof (cases s)
    case stateBeginValue
    with assms(1) st have "beginValue t ps = Some st'" by (simp add: step_def)
    from beginValue_ok[OF this ps] show ?thesis .
  next
    case stateBeginValueOrEmpty
    show ?thesis
    proof (cases "\<exists>es ps'. t = RBracket \<and> ps = parseArray es # ps'")
      case True
      then obtain es ps' where c: "t = RBracket" "ps = parseArray es # ps'" by blast
      with assms(1) st stateBeginValueOrEmpty have "endValue (JArray es) ps' = Some st'"
        by (simp add: step_def)
      from close_ok(2)[OF ps[unfolded c(2)] refl this] show ?thesis .
    next
      case False
      with assms(1) st stateBeginValueOrEmpty have "beginValue t ps = Some st'"
        by (auto simp: step_def split: token.splits list.splits parseState.splits)
      from beginValue_ok[OF this ps] show ?thesis .
    qed
  next
    case stateBeginStringOrEmpty
    show ?thesis
    proof (cases "\<exists>ms ps'. t = RBrace \<and> ps = parseObject ms None # ps'")
      case True
      then obtain ms ps' where c: "t = RBrace" "ps = parseObject ms None # ps'" by blast
      with assms(1) st stateBeginStringOrEmpty have "endValue (JObject ms) ps' = Some st'"
        by (simp add: step_def)
      from close_ok(1)[OF ps[unfolded c(2)] refl this] show ?thesis .
    next
      case False
      with assms(1) st stateBeginStringOrEmpty have "beginString t ps = Some st'"
        by (auto simp: step_def split: token.splits list.splits parseState.splits option.splits)
      from beginString_ok[OF this ps] show ?thesis .
    qed
  next
    case stateBeginString
    with assms(1) st have "beginString t ps = Some st'" by (simp add: step_def)
    from beginString_ok[OF this ps] show ?thesis .
  next
    case stateEndKey
    with assms(1) st ps show ?thesis by (auto simp: step_def state_ok_def split: if_splits)
  next
    case stateEndValue
    show ?thesis
    proof (cases ps)
      case Nil
      with assms(1) st stateEndValue show ?thesis
        by (auto simp: step_def split: token.splits)
    next
      case (Cons p ps')
      show ?thesis
      proof (cases p)
        case (parseObject ms k)
        with assms(1) st stateEndValue Cons consider
          "st' = (stateBeginString, ps)" | "endValue (JObject ms) ps' = Some st'"
          by (auto simp: step_def split: token.splits option.splits)
        then show ?thesis
        proof cases
          case 1
          with ps show ?thesis by (simp add: state_ok_def)
        next
          case 2
          from close_ok(1)[OF ps[unfolded Cons] parseObject 2] show ?thesis .
        qed
      next
        case (parseArray es)
        with assms(1) st stateEndValue Cons consider
          "st' = (stateBeginValue, ps)" | "endValue (JArray es) ps' = Some st'"
          by (auto simp: step_def split: token.splits)
        then show ?thesis
        proof cases
          case 1
          with ps show ?thesis by (simp add: state_ok_def)
        next
          case 2
          from close_ok(2)[OF ps[unfolded Cons] parseArray 2] show ?thesis .
        qed
      qed
    qed
  next
    case (stateEndTop v)
    with assms(1) st show ?thesis by (simp add: step_def)
  qed
qed

lemma steps_ok: "steps st ts = Some st' \<Longrightarrow> state_ok st \<Longrightarrow> state_ok st'"
proof (induction ts arbitrary: st)
  case Nil
  then show ?case by simp
next
  case (Cons t ts)
  from Cons.prems(1) obtain st1 where s: "step st t = Some st1" "steps st1 ts = Some st'"
    by (auto split: option.splits)
  from Cons.IH[OF s(2) step_ok[OF s(1) Cons.prems(2)]] show ?case .
qed

lemma parse_ok: "parse data = Some v \<Longrightarrow> top_ok v"
proof -
  assume p: "parse data = Some v"
  then obtain ts ps where "steps (stateBeginValue, []) ts = Some (stateEndTop v, ps)"
    by (auto simp: parse_def split: option.splits prod.splits scanStep.splits)
  from steps_ok[OF this] show ?thesis by (simp add: state_ok_def)
qed

lemma ParseInt_range: "ParseInt lit = Some n \<Longrightarrow> - (2 ^ 63) \<le> n \<and> n < 2 ^ 63"
  by (auto simp: ParseInt_def Let_def split: list.splits option.splits if_splits)

lemma storeField_ok:
  assumes "storeField f v r = Inr r'" "shallow_ok v" "wellFormed r"
  shows "wellFormed r'"
  using assms
  by (auto simp: storeField_def storeString_def storeInt_def shallow_ok_def wellFormed_def
      dest: ParseInt_range split: if_splits json.splits option.splits)

lemma object_ok:
  "object ms (r, e) = (r', e') \<Longrightarrow> members_ok ms \<Longrightarrow> wellFormed r \<Longrightarrow> wellFormed r'"
proof (induction ms arbitrary: r e)
  case Nil
  then show ?case by simp
next
  case (Cons m ms)
  obtain key v where m: "m = (key, v)" by (cases m)
  from Cons.prems(2) m have ok: "shallow_ok v" "members_ok ms" by (simp_all add: members_ok_def)
  show ?case
  proof (cases "findField key")
    case None
    with Cons.prems(1) m have "object ms (r, e) = (r', e')" by simp
    from Cons.IH[OF this ok(2) Cons.prems(3)] show ?thesis .
  next
    case (Some f)
    show ?thesis
    proof (cases "storeField f v r")
      case (Inl err)
      with Cons.prems(1) m Some have "object ms (r, if e = None then Some err else e) = (r', e')"
        by simp
      from Cons.IH[OF this ok(2) Cons.prems(3)] show ?thesis .
    next
      case (Inr r1)
      with Cons.prems(1) m Some have "object ms (r1, e) = (r', e')" by simp
      from Cons.IH[OF this ok(2) storeField_ok[OF Inr ok(1) Cons.prems(3)]] show ?thesis .
    qed
  qed
qed

lemma zero_wellFormed: "wellFormed zeroTokenResponse"
  by (simp add: wellFormed_def zeroTokenResponse_def)

lemma json_Unmarshal_wellFormed: "json_Unmarshal data = Inr r \<Longrightarrow> wellFormed r"
proof -
  assume u: "json_Unmarshal data = Inr r"
  then obtain v where p: "parse data = Some v"
    by (auto simp: json_Unmarshal_def split: option.splits)
  show ?thesis
  proof (cases v)
    case JNull
    with u p show ?thesis by (simp add: json_Unmarshal_def zero_wellFormed)
  next
    case (JObject ms)
    with u p obtain e where o: "object ms (zeroTokenResponse, None) = (r, e)"
      by (auto simp: json_Unmarshal_def split: prod.splits option.splits)
    from parse_ok[OF p] JObject have "members_ok ms" by (simp add: top_ok_def)
    from object_ok[OF o this zero_wellFormed] show ?thesis .
  qed (use u p in \<open>simp_all add: json_Unmarshal_def\<close>)
qed

section \<open>Evaluation of the decoder and the members of an object\<close>

lemmas json_eval =
  json_Unmarshal_def parse_def quote_def dq_def bs_def isSpace_def tok_def scanned_def htmlSafe_def
  is_digit_def scan_number_def scan_int_def scan_frac_def scan_exp_def step_def beginValue_def
  beginString_def endValue_def pushParseState_def maxNestingDepth_def cons_opt_def findField_def
  structFields_def storeField_def storeString_def storeInt_def ParseInt_def ParseUint_def digit_val_def
  zeroTokenResponse_def tokenize.simps scan_string.simps
  unquoteBytes.simps appendString.simps


lemma modifier_Inr:
  assumes "accessTokenToIdTokenResponseBodyModifier body = Inr out"
  shows "\<exists>r. json_Unmarshal body = Inr r \<and> out = marshalled (r\<lparr>IdToken := AccessToken r\<rparr>)"
proof (cases "json_Unmarshal body")
  case (Inl err)
  with assms show ?thesis by (simp add: accessTokenToIdTokenResponseBodyModifier_def)
next
  case (Inr r)
  with assms show ?thesis
    by (simp add: accessTokenToIdTokenResponseBodyModifier_def json_Marshal_marshalled)
qed

lemma FormatInt_3600: "FormatInt 3600 = ''3600''"
  by (simp add: FormatInt_def formatBits.simps hex_def)

section \<open>The handlers: relaying, errors and headers\<close>

lemma Header_Get_Set: "Header_Get (Header_Set h k v) k = v"
  by (simp add: Header_Get_def Header_Set_def update_conv')

lemma map_of_Header_Set: "map_of (Header_Set h k v) k = Some [v]"
  by (simp add: Header_Set_def update_conv')

lemma http_Error_new:
  "100 \<le> code \<Longrightarrow> code \<le> 999 \<Longrightarrow> \<not> (code \<le> 199) \<Longrightarrow> code \<noteq> 204 \<Longrightarrow> code \<noteq> 304 \<Longrightarrow>
   http_Error W reqMethod newResponseWriter msg code =
     Inr \<lparr>handlerHeader = [(''Content-Type'', [''text/plain; charset=utf-8'']),
                              (''X-Content-Type-Options'', [''nosniff''])],
          wroteHeader = True, status = code,
          cw_header = [(''Content-Type'', [''text/plain; charset=utf-8'']),
                       (''X-Content-Type-Options'', [''nosniff''])],
          informational = [],
          cw_body = (if reqMethod = ''HEAD'' then [] else msg @ [CHR 0x0A])\<rparr>"
  by (simp add: http_Error_def newResponseWriter_def Header_Set_def Header_Del_def WriteHeader_def
      Write_def bodyAllowedForStatus_def Let_def)

lemma writeResponse_fresh:
  "\<not> wroteHeader w \<Longrightarrow> reqMethod \<noteq> ''HEAD'' \<Longrightarrow>
   fst (writeResponse W reqMethod data w tr) =
     Inr (w\<lparr>wroteHeader := True, status := 200, cw_header := handlerHeader w,
            cw_body := cw_body w @ data\<rparr>)"
  by (cases "write_err W")
     (simp_all add: writeResponse_def Write_def StatusOK_def bodyAllowedForStatus_def Let_def)


lemma handler_POST:
  assumes "r_Method r = ''POST''" "r_Body r = Inr b" "NewRequest_err W backendUrl = None"
    "client_Do W \<lparr>req_Method = ''POST'', req_URL = backendUrl, req_Header = r_Header r,
                  req_Body = b\<rparr> = Inr resp"
    "resp_Body resp = Inr rb"
  shows "proxyingPostHandlerWithResponseModifier W backendUrl responseBodyModifier config debug w r =
     (let backendReq = \<lparr>req_Method = ''POST'', req_URL = backendUrl, req_Header = r_Header r,
                          req_Body = b\<rparr>
      in if 300 \<le> StatusCode resp \<or> StatusCode resp < 200
         then writeResponse W ''POST'' rb w [BackendCall backendReq]
         else
           (let tr = BackendCall backendReq # (if debug then debugDump resp rb else [])
            in case responseBodyModifier of
                 Some modifier \<Rightarrow>
                   (case modifier rb of
                      Inl err \<Rightarrow>
                        (http_Error W ''POST'' w (''Error processing request body modifier: '' @ Error W err)
                           StatusInternalServerError,
                         tr @ [ModifierCall rb])
                    | Inr responseBody \<Rightarrow>
                        writeResponse W ''POST'' responseBody
                          (w\<lparr>handlerHeader := Header_Set (handlerHeader w) ''Content-Type''
                               (Header_Get (resp_Header resp) ''Content-Type'')\<rparr>)
                          (tr @ [ModifierCall rb]))
               | None \<Rightarrow>
                   writeResponse W ''POST'' rb
                     (w\<lparr>handlerHeader := Header_Set (handlerHeader w) ''Content-Type''
                          (Header_Get (resp_Header resp) ''Content-Type'')\<rparr>)
                     tr))"
  using assms(2-) unfolding proxyingPostHandlerWithResponseModifier_def assms(1)
  by (simp add: http_NewRequest_def Let_def)

lemma old_handler_POST:
  assumes "r_Method r = ''POST''" "r_Body r = Inr b"
    "NewRequest_err W (TokenEndpoint (Backend config)) = None"
    "client_Do W \<lparr>req_Method = ''POST'', req_URL = TokenEndpoint (Backend config),
                  req_Header = r_Header r, req_Body = b\<rparr> = Inr resp"
    "200 \<le> StatusCode resp" "StatusCode resp < 300"
    "resp_Body resp = Inr rb" "json_Unmarshal rb = Inr t"
  shows "fst (postTokenHandler W config debug newResponseWriter r) =
     Inr \<lparr>handlerHeader = [(''Content-Type'', [Header_Get (resp_Header resp) ''Content-Type''])],
          wroteHeader = True, status = 200,
          cw_header = [(''Content-Type'', [Header_Get (resp_Header resp) ''Content-Type''])],
          informational = [],
          cw_body = projr (json_Marshal (t\<lparr>IdToken := AccessToken t\<rparr>))\<rparr>"
  using assms
  by (simp add: postTokenHandler_def http_NewRequest_def Let_def json_Marshal_def
      writeResponse_fresh newResponseWriter_def Header_Set_def)

text \<open>
  Claim C4. The claim asks that every request whose method is not POST be answered with
  status 405 and the fixed message as its body, with no backend call. Status and trace are
  as claimed for every such method. The body is the fixed message for every method but
  HEAD: the handler is registered for all methods, and for a HEAD request the server
  accepts the bytes of \<open>http.Error\<close> and sends none of them.
\<close>

theorem non_POST_method_not_allowed:
  assumes "r_Method r \<noteq> ''POST''"
  shows "proxyingPostHandlerWithResponseModifier W backendUrl responseBodyModifier config debug
           newResponseWriter r =
         (Inr \<lparr>handlerHeader = [(''Content-Type'', [''text/plain; charset=utf-8'']),
                                  (''X-Content-Type-Options'', [''nosniff''])],
               wroteHeader = True, status = 405,
               cw_header = [(''Content-Type'', [''text/plain; charset=utf-8'']),
                            (''X-Content-Type-Options'', [''nosniff''])],
               informational = [],
               cw_body =
                 (if r_Method r = ''HEAD'' then []
                  else ''(proxyingPostHandlerWithResponseModifier) Invalid request method''
                         @ [CHR 0x0A])\<rparr>,
          [])"
  using assms
  by (simp add: proxyingPostHandlerWithResponseModifier_def http_Error_new StatusMethodNotAllowed_def)

theorem non_POST_method_not_allowed_witness:
  "r_Method exampleGet \<noteq> ''POST'' \<and>
   (case tokenRoute (exampleWorld invalidGrant) exampleConfig False newResponseWriter exampleGet of
      (Inr w, tr) \<Rightarrow>
        status w = 405
        \<and> cw_body w = ''(proxyingPostHandlerWithResponseModifier) Invalid request method''
                        @ [CHR 0x0A]
        \<and> tr = []
    | (Inl p, tr) \<Rightarrow> False)"
  using non_POST_method_not_allowed[of exampleGet "exampleWorld invalidGrant"
      "TokenEndpoint (Backend exampleConfig)" "Some accessTokenToIdTokenResponseBodyModifier"
      exampleConfig False]
  by (simp add: exampleGet_def tokenRoute_def)

theorem head_request_has_no_body_counterexample:
  "r_Method exampleHead \<noteq> ''POST'' \<and>
   tokenRoute (exampleWorld invalidGrant) exampleConfig False newResponseWriter exampleHead =
     (Inr \<lparr>handlerHeader = [(''Content-Type'', [''text/plain; charset=utf-8'']),
                              (''X-Content-Type-Options'', [''nosniff''])],
           wroteHeader = True, status = 405,
           cw_header = [(''Content-Type'', [''text/plain; charset=utf-8'']),
                        (''X-Content-Type-Options'', [''nosniff''])],
           informational = [], cw_body = []\<rparr>,
      [])"
  by (simp add: tokenRoute_def proxyingPostHandlerWithResponseModifier_def exampleHead_def
      http_Error_def newResponseWriter_def Header_Set_def Header_Del_def WriteHeader_def
      Write_def bodyAllowedForStatus_def Let_def StatusMethodNotAllowed_def StatusOK_def)



text \<open>
  Claim C5. When the backend answers with a status in [200, 300) and the bound modifier
  rejects the body, the caller receives status 500 and a body that is the diagnostic
  message alone: the backend status is dropped and nothing of the backend body or of a
  transformed body is written.
\<close>

theorem modifier_failure_gives_500:
  assumes "r_Method r = ''POST''" "r_Body r = Inr b" "NewRequest_err W backendUrl = None"
    "client_Do W \<lparr>req_Method = ''POST'', req_URL = backendUrl, req_Header = r_Header r,
                  req_Body = b\<rparr> = Inr resp"
    "resp_Body resp = Inr rb"
    "200 \<le> StatusCode resp" "StatusCode resp < 300"
    "modifier rb = Inl err"
  shows "fst (proxyingPostHandlerWithResponseModifier W backendUrl (Some modifier) config debug
                newResponseWriter r) =
         Inr \<lparr>handlerHeader = [(''Content-Type'', [''text/plain; charset=utf-8'']),
                                 (''X-Content-Type-Options'', [''nosniff''])],
              wroteHeader = True, status = 500,
              cw_header = [(''Content-Type'', [''text/plain; charset=utf-8'']),
                           (''X-Content-Type-Options'', [''nosniff''])],
              informational = [],
              cw_body = ''Error processing request body modifier: '' @ Error W err @ [CHR 0x0A]\<rparr>"
  unfolding handler_POST[OF assms(1-5)] using assms(6-8)
  by (simp add: Let_def http_Error_new StatusInternalServerError_def)

theorem modifier_failure_gives_500_witness:
  "r_Method examplePost = ''POST'' \<and> StatusCode malformedOK = 200
   \<and> accessTokenToIdTokenResponseBodyModifier ''{not json'' = Inl SyntaxError
   \<and> (case fst (tokenRoute (exampleWorld malformedOK) exampleConfig False newResponseWriter
                   examplePost) of
         Inr w \<Rightarrow> status w = 500
                  \<and> cw_body w = ''Error processing request body modifier: invalid JSON'' @ [CHR 0x0A]
       | Inl p \<Rightarrow> False)"
proof -
  have m: "accessTokenToIdTokenResponseBodyModifier ''{not json'' = Inl SyntaxError"
    by (simp add: accessTokenToIdTokenResponseBodyModifier_def json_Unmarshal_def parse_def
        isSpace_def tok_def dq_def is_digit_def tokenize.simps)
  show ?thesis
    using modifier_failure_gives_500[of examplePost "''grant_type=client_credentials''"
        "exampleWorld malformedOK" "TokenEndpoint (Backend exampleConfig)" malformedOK
        "''{not json''" accessTokenToIdTokenResponseBodyModifier SyntaxError exampleConfig False]
      m
    by (simp add: examplePost_def exampleWorld_def malformedOK_def tokenRoute_def Error_def)
qed

text \<open>
  Claim C6. On the route bound with no modifier (the introspection route) the body written
  to the caller is the body of the backend response, whatever the backend status.
\<close>

theorem introspection_body_verbatim:
  assumes "r_Method r = ''POST''" "r_Body r = Inr b"
    "NewRequest_err W (IntrospectionEndpoint (Backend config)) = None"
    "client_Do W \<lparr>req_Method = ''POST'', req_URL = IntrospectionEndpoint (Backend config),
                  req_Header = r_Header r, req_Body = b\<rparr> = Inr resp"
    "resp_Body resp = Inr rb"
  shows "\<exists>w. fst (introspectionRoute W config debug newResponseWriter r) = Inr w
             \<and> cw_body w = rb"
  unfolding introspectionRoute_def handler_POST[OF assms]
  by (simp add: Let_def writeResponse_fresh newResponseWriter_def)

theorem introspection_body_verbatim_witness:
  "r_Method examplePost = ''POST''
   \<and> (\<exists>w. fst (introspectionRoute (exampleWorld invalidGrant) exampleConfig False
                  newResponseWriter examplePost) = Inr w
           \<and> cw_body w = ''{'' @ quote ''error'' @ '':'' @ quote ''invalid_grant'' @ ''}'')"
  using introspection_body_verbatim[of examplePost "''grant_type=client_credentials''"
      "exampleWorld invalidGrant" exampleConfig invalidGrant
      "''{'' @ quote ''error'' @ '':'' @ quote ''invalid_grant'' @ ''}''" False]
  by (simp add: examplePost_def exampleWorld_def invalidGrant_def)

text \<open>
  Claim C8. When the backend answers with a status in [200, 300) and the exchange reaches
  the emission of the response (no modifier bound, or the modifier accepts the body), the
  response is sent with a \<open>Content-Type\<close> header of exactly one value: the first value the
  backend response lists under \<open>Content-Type\<close>, and the empty string when it lists none.
\<close>

theorem content_type_copied:
  assumes "r_Method r = ''POST''" "r_Body r = Inr b" "NewRequest_err W backendUrl = None"
    "client_Do W \<lparr>req_Method = ''POST'', req_URL = backendUrl, req_Header = r_Header r,
                  req_Body = b\<rparr> = Inr resp"
    "resp_Body resp = Inr rb"
    "200 \<le> StatusCode resp" "StatusCode resp < 300"
    "responseBodyModifier = None
       \<or> (\<exists>modifier out. responseBodyModifier = Some modifier \<and> modifier rb = Inr out)"
  shows "\<exists>w. fst (proxyingPostHandlerWithResponseModifier W backendUrl responseBodyModifier
                    config debug newResponseWriter r) = Inr w
             \<and> wroteHeader w
             \<and> map_of (cw_header w) ''Content-Type''
                 = Some [case map_of (resp_Header resp) ''Content-Type'' of
                           Some (v # vs) \<Rightarrow> v
                         | _ \<Rightarrow> []]"
  unfolding handler_POST[OF assms(1-5)] using assms(6-8)
  by (auto simp: Let_def writeResponse_fresh newResponseWriter_def map_of_Header_Set
      Header_Get_def)

theorem content_type_copied_witness:
  "r_Method examplePost = ''POST'' \<and> StatusCode tokenOK = 200
   \<and> map_of (resp_Header tokenOK) ''Content-Type'' = Some [''application/json'']
   \<and> (\<exists>w. fst (introspectionRoute (exampleWorld tokenOK) exampleConfig False
                  newResponseWriter examplePost) = Inr w
           \<and> wroteHeader w
           \<and> map_of (cw_header w) ''Content-Type'' = Some [''application/json''])
   \<and> map_of (resp_Header emptyTypeOK) ''Content-Type'' = None
   \<and> (\<exists>w. fst (introspectionRoute (exampleWorld emptyTypeOK) exampleConfig False
                  newResponseWriter examplePost) = Inr w
           \<and> wroteHeader w \<and> map_of (cw_header w) ''Content-Type'' = Some [[]])"
  using content_type_copied[of examplePost "''grant_type=client_credentials''"
      "exampleWorld tokenOK" "IntrospectionEndpoint (Backend exampleConfig)" tokenOK
      exampleTokenBody None exampleConfig False]
    content_type_copied[of examplePost "''grant_type=client_credentials''"
      "exampleWorld emptyTypeOK" "IntrospectionEndpoint (Backend exampleConfig)" emptyTypeOK
      "''ok''" None exampleConfig False]
  by (simp add: examplePost_def exampleWorld_def tokenOK_def emptyTypeOK_def
      introspectionRoute_def)

lemma exampleTokenBody_unmarshal:
  "json_Unmarshal exampleTokenBody =
     Inr \<lparr>AccessToken = ''tok1'', RefreshToken = [], TokenType = ''Bearer'', ExpiresIn = 3600,
          IdToken = []\<rparr>"
  by (simp add: exampleTokenBody_def json_eval)

text \<open>
  Claim C9. For a POST that the backend answers with a status in [200, 300) and a body that
  unmarshals as a \<open>TokenResponse\<close>, the original \<open>postTokenHandler\<close> and the generalised
  handler bound to \<open>accessTokenToIdTokenResponseBodyModifier\<close> leave the response writer in
  the same state: same status, same \<open>Content-Type\<close>, same body.
\<close>

theorem handlers_agree_on_success:
  assumes "r_Method r = ''POST''" "r_Body r = Inr b"
    "NewRequest_err W (TokenEndpoint (Backend config)) = None"
    "client_Do W \<lparr>req_Method = ''POST'', req_URL = TokenEndpoint (Backend config),
                  req_Header = r_Header r, req_Body = b\<rparr> = Inr resp"
    "resp_Body resp = Inr rb"
    "200 \<le> StatusCode resp" "StatusCode resp < 300"
    "json_Unmarshal rb = Inr t"
  shows "fst (postTokenHandler W config debug newResponseWriter r) =
           fst (tokenRoute W config debug newResponseWriter r)
         \<and> (\<exists>w. fst (tokenRoute W config debug newResponseWriter r) = Inr w
                \<and> status w = 200
                \<and> map_of (cw_header w) ''Content-Type''
                    = Some [Header_Get (resp_Header resp) ''Content-Type'']
                \<and> json_Marshal (t\<lparr>IdToken := AccessToken t\<rparr>) = Inr (cw_body w))"
proof -
  have new: "fst (tokenRoute W config debug newResponseWriter r) =
     Inr \<lparr>handlerHeader = [(''Content-Type'', [Header_Get (resp_Header resp) ''Content-Type''])],
          wroteHeader = True, status = 200,
          cw_header = [(''Content-Type'', [Header_Get (resp_Header resp) ''Content-Type''])],
          informational = [],
          cw_body = projr (json_Marshal (t\<lparr>IdToken := AccessToken t\<rparr>))\<rparr>"
    unfolding tokenRoute_def handler_POST[OF assms(1-5)] using assms(6-8)
    by (simp add: Let_def accessTokenToIdTokenResponseBodyModifier_def json_Marshal_def
        writeResponse_fresh newResponseWriter_def Header_Set_def)
  show ?thesis
    unfolding new old_handler_POST[OF assms(1-4) assms(6,7) assms(5) assms(8)]
    by (simp add: json_Marshal_def)
qed

theorem handlers_agree_on_success_witness:
  "r_Method examplePost = ''POST'' \<and> StatusCode tokenOK = 200
   \<and> (\<exists>t. json_Unmarshal exampleTokenBody = Inr t)
   \<and> fst (postTokenHandler (exampleWorld tokenOK) exampleConfig False newResponseWriter
            examplePost) =
       fst (tokenRoute (exampleWorld tokenOK) exampleConfig False newResponseWriter examplePost)
   \<and> (\<exists>w. fst (tokenRoute (exampleWorld tokenOK) exampleConfig False newResponseWriter
                  examplePost) = Inr w
           \<and> status w = 200
           \<and> map_of (cw_header w) ''Content-Type'' = Some [''application/json''])"
  using handlers_agree_on_success[of examplePost "''grant_type=client_credentials''"
      "exampleWorld tokenOK" exampleConfig tokenOK exampleTokenBody
      "\<lparr>AccessToken = ''tok1'', RefreshToken = [], TokenType = ''Bearer'', ExpiresIn = 3600,
        IdToken = []\<rparr>" False]
    exampleTokenBody_unmarshal
  by (auto simp: examplePost_def exampleWorld_def tokenOK_def exampleConfig_def Header_Get_def)

text \<open>
  Claim C1. The claim asks that a backend response with a status outside [200, 300) reaches
  the caller with its status and its body. The generalised handler writes the body with
  \<open>w.Write\<close> and never calls \<open>WriteHeader\<close> on that path, so the caller receives status
  200: evaluated here on a backend that answers 401 with an \<open>invalid_grant\<close> body.
\<close>

theorem non_success_status_not_relayed:
  "StatusCode invalidGrant = 401
   \<and> tokenRoute (exampleWorld invalidGrant) exampleConfig False newResponseWriter examplePost =
       (Inr \<lparr>handlerHeader = [], wroteHeader = True, status = 200, cw_header = [],
             informational = [],
             cw_body = ''{'' @ quote ''error'' @ '':'' @ quote ''invalid_grant'' @ ''}''\<rparr>,
        [BackendCall \<lparr>req_Method = ''POST'', req_URL = ''http://idp.example/token'',
                       req_Header = r_Header examplePost,
                       req_Body = ''grant_type=client_credentials''\<rparr>])"
  by (simp add: tokenRoute_def proxyingPostHandlerWithResponseModifier_def examplePost_def
      exampleWorld_def invalidGrant_def exampleConfig_def http_NewRequest_def Let_def
      writeResponse_def Write_def newResponseWriter_def StatusOK_def bodyAllowedForStatus_def
      quote_def)

section \<open>The token transformer\<close>

lemma exampleTokenBody_modifier:
  "accessTokenToIdTokenResponseBodyModifier exampleTokenBody = Inr exampleTokenOut"
  by (simp add: accessTokenToIdTokenResponseBodyModifier_def exampleTokenBody_unmarshal
      json_Marshal_def exampleTokenOut_def inQuotes_def quote_def dq_def bs_def htmlSafe_def
      appendString.simps FormatInt_3600)

lemma extraMembersBody_parse:
  "parse extraMembersBody =
     Some (JObject [(''scope'', JString ''read''), (''token_type'', JString ''Bearer''),
                    (''id_token'', JString ''old''), (''access_token'', JString ''tok1''),
                    (''expires_in'', JNumber ''3600''),
                    (''extra'', JArray [JNumber ''1'', JObject [(''a'', JNull)]])])"
  by (simp add: extraMembersBody_def inQuotes_def json_eval)

lemma extraMembersBody_unmarshal:
  "json_Unmarshal extraMembersBody =
     Inr \<lparr>AccessToken = ''tok1'', RefreshToken = [], TokenType = ''Bearer'', ExpiresIn = 3600,
          IdToken = ''old''\<rparr>"
  unfolding json_Unmarshal_def extraMembersBody_parse
  by (simp add: findField_def structFields_def storeField_def storeString_def storeInt_def
      ParseInt_def ParseUint_def digit_val_def is_digit_def zeroTokenResponse_def)

lemma extraMembersBody_modifier:
  "accessTokenToIdTokenResponseBodyModifier extraMembersBody = Inr exampleTokenOut"
  by (simp add: accessTokenToIdTokenResponseBodyModifier_def extraMembersBody_unmarshal
      json_Marshal_def exampleTokenOut_def inQuotes_def quote_def dq_def bs_def htmlSafe_def
      appendString.simps FormatInt_3600)






text \<open>
  Claim C7. When the transformer accepts a body, with \<open>r\<close> the record decoded from it, the
  record decoded from the output has the \<open>access_token\<close>, \<open>refresh_token\<close>, \<open>token_type\<close>
  and \<open>expires_in\<close> of \<open>r\<close> and differs from \<open>r\<close> in \<open>id_token\<close> only, which holds the
  access token; and the output is a JSON object of exactly the five named members, so
  every other member of the input is gone.
\<close>

theorem modifier_frame:
  assumes "accessTokenToIdTokenResponseBodyModifier body = Inr out"
  shows "\<exists>r. json_Unmarshal body = Inr r
           \<and> json_Unmarshal out = Inr (r\<lparr>IdToken := AccessToken r\<rparr>)
           \<and> parse out =
               Some (JObject [(''access_token'', JString (AccessToken r)),
                              (''refresh_token'', JString (RefreshToken r)),
                              (''token_type'', JString (TokenType r)),
                              (''expires_in'', JNumber (FormatInt (ExpiresIn r))),
                              (''id_token'', JString (AccessToken r))])"
proof -
  from modifier_Inr[OF assms] obtain r where u: "json_Unmarshal body = Inr r"
    and out: "out = marshalled (r\<lparr>IdToken := AccessToken r\<rparr>)"
    by blast
  from json_Unmarshal_wellFormed[OF u] have w: "wellFormed (r\<lparr>IdToken := AccessToken r\<rparr>)"
    by (simp add: wellFormed_def)
  then have v: "valid_utf8 (AccessToken (r\<lparr>IdToken := AccessToken r\<rparr>))"
    "valid_utf8 (RefreshToken (r\<lparr>IdToken := AccessToken r\<rparr>))"
    "valid_utf8 (TokenType (r\<lparr>IdToken := AccessToken r\<rparr>))"
    "valid_utf8 (IdToken (r\<lparr>IdToken := AccessToken r\<rparr>))"
    by (simp_all add: wellFormed_def)
  from parse_marshalled[OF v] json_Unmarshal_marshalled[OF w] u show ?thesis
    unfolding out by simp
qed

theorem modifier_frame_witness:
  "parse extraMembersBody =
     Some (JObject [(''scope'', JString ''read''), (''token_type'', JString ''Bearer''),
                    (''id_token'', JString ''old''), (''access_token'', JString ''tok1''),
                    (''expires_in'', JNumber ''3600''),
                    (''extra'', JArray [JNumber ''1'', JObject [(''a'', JNull)]])])
   \<and> json_Unmarshal extraMembersBody =
       Inr \<lparr>AccessToken = ''tok1'', RefreshToken = [], TokenType = ''Bearer'', ExpiresIn = 3600,
            IdToken = ''old''\<rparr>
   \<and> accessTokenToIdTokenResponseBodyModifier extraMembersBody = Inr exampleTokenOut
   \<and> json_Unmarshal exampleTokenOut =
       Inr \<lparr>AccessToken = ''tok1'', RefreshToken = [], TokenType = ''Bearer'', ExpiresIn = 3600,
            IdToken = ''tok1''\<rparr>
   \<and> parse exampleTokenOut =
       Some (JObject [(''access_token'', JString ''tok1''), (''refresh_token'', JString []),
                      (''token_type'', JString ''Bearer''), (''expires_in'', JNumber ''3600''),
                      (''id_token'', JString ''tok1'')])"
  using modifier_frame[OF extraMembersBody_modifier]
  by (simp add: extraMembersBody_parse extraMembersBody_unmarshal extraMembersBody_modifier
      FormatInt_3600)

text \<open>
  Claim C10. The transformer is idempotent: on every body it accepts, it accepts its own
  output and returns that output unchanged.
\<close>

theorem modifier_idempotent:
  assumes "accessTokenToIdTokenResponseBodyModifier body = Inr out"
  shows "accessTokenToIdTokenResponseBodyModifier out = Inr out"
proof -
  from modifier_Inr[OF assms] obtain r where u: "json_Unmarshal body = Inr r"
    and out: "out = marshalled (r\<lparr>IdToken := AccessToken r\<rparr>)"
    by blast
  from json_Unmarshal_wellFormed[OF u] have w: "wellFormed (r\<lparr>IdToken := AccessToken r\<rparr>)"
    by (simp add: wellFormed_def)
  show ?thesis
    by (simp add: accessTokenToIdTokenResponseBodyModifier_def out json_Unmarshal_marshalled[OF w]
        json_Marshal_marshalled)
qed

theorem modifier_idempotent_witness:
  "accessTokenToIdTokenResponseBodyModifier exampleTokenBody = Inr exampleTokenOut
   \<and> accessTokenToIdTokenResponseBodyModifier exampleTokenOut = Inr exampleTokenOut"
  using modifier_idempotent[OF exampleTokenBody_modifier]
  by (simp add: exampleTokenBody_modifier)

end
